theory Spec2Isabelle
  imports Main
begin

section \<open>Go strings, runes and the unicode predicates\<close>

text \<open>
  A Go \<^verbatim>\<open>string\<close> is a sequence of bytes; here it is a \<^typ>\<open>string\<close>, whose
  characters are bytes. A \<^verbatim>\<open>rune\<close> is a code point; the runes that
  \<^verbatim>\<open>[]rune(text)\<close> produces lie between 0 and 0x10FFFF, so a rune is a
  \<^typ>\<open>nat\<close>.
\<close>

type_synonym rune = nat

definition RuneError :: rune where
  "RuneError = 0xFFFD"

text \<open>
  \<^verbatim>\<open>utf8.DecodeRuneInString\<close>: the first rune of a non-empty string and its width in
  bytes. A byte that starts no well-formed encoding decodes to \<^verbatim>\<open>RuneError\<close> with
  width 1. The masks and shifts of the Go code are written as \<open>mod\<close> and
  multiplication (\<^verbatim>\<open>s0&mask2\<close> is \<open>s0 mod 32\<close>, \<^verbatim>\<open>s1&maskx\<close> is
  \<open>s1 mod 64\<close>, \<^verbatim>\<open>x<<6 | y\<close> with \<open>y < 64\<close> is \<open>x * 64 + y\<close>).
  \<open>first_size\<close> and \<open>accept_lo\<close>, \<open>accept_hi\<close> are the tables
  \<^verbatim>\<open>first\<close> and \<^verbatim>\<open>acceptRanges\<close>.
\<close>

definition first_size :: "nat \<Rightarrow> nat" where
  "first_size s0 =
     (if s0 < 0x80 then 1
      else if s0 < 0xC2 then 0
      else if s0 < 0xE0 then 2
      else if s0 < 0xF0 then 3
      else if s0 < 0xF5 then 4
      else 0)"

definition accept_lo :: "nat \<Rightarrow> nat" where
  "accept_lo s0 = (if s0 = 0xE0 then 0xA0 else if s0 = 0xF0 then 0x90 else 0x80)"

definition accept_hi :: "nat \<Rightarrow> nat" where
  "accept_hi s0 = (if s0 = 0xED then 0x9F else if s0 = 0xF4 then 0x8F else 0xBF)"

definition cont_byte :: "nat \<Rightarrow> bool" where
  "cont_byte b = (0x80 \<le> b \<and> b \<le> 0xBF)"

fun DecodeRune :: "nat list \<Rightarrow> rune \<times> nat" where
  "DecodeRune [] = (RuneError, 0)"
| "DecodeRune (s0 # s) =
     (let sz = first_size s0 in
      if sz = 1 then (s0, 1)
      else if sz = 0 then (RuneError, 1)
      else if length (s0 # s) < sz then (RuneError, 1)
      else
        let s1 = s ! 0 in
        if s1 < accept_lo s0 \<or> accept_hi s0 < s1 then (RuneError, 1)
        else if sz \<le> 2 then ((s0 mod 32) * 64 + s1 mod 64, 2)
        else
          let s2 = s ! 1 in
          if \<not> cont_byte s2 then (RuneError, 1)
          else if sz \<le> 3 then ((s0 mod 16) * 4096 + (s1 mod 64) * 64 + s2 mod 64, 3)
          else
            let s3 = s ! 2 in
            if \<not> cont_byte s3 then (RuneError, 1)
            else ((s0 mod 8) * 262144 + (s1 mod 64) * 4096 + (s2 mod 64) * 64
                    + s3 mod 64, 4))"

text \<open>\<^verbatim>\<open>[]rune(text)\<close> on the bytes of the string: decode, skip the width, repeat.\<close>

fun decode_bytes :: "nat list \<Rightarrow> rune list" where
  "decode_bytes [] = []"
| "decode_bytes (s0 # s) =
     fst (DecodeRune (s0 # s)) # decode_bytes (drop (snd (DecodeRune (s0 # s)) - 1) s)"

definition string_to_runes :: "string \<Rightarrow> rune list" where
  "string_to_runes text = decode_bytes (map of_char text)"

text \<open>
  \<^verbatim>\<open>utf8.AppendRune\<close>, which \<^verbatim>\<open>strings.Builder.WriteRune\<close> calls: the bytes
  that a rune adds to the builder. A surrogate or a value above \<^verbatim>\<open>MaxRune\<close> is
  written as \<^verbatim>\<open>RuneError\<close>.
\<close>

definition rune_bytes :: "rune \<Rightarrow> nat list" where
  "rune_bytes r =
     (if r \<le> 0x7F then [r]
      else if r \<le> 0x7FF then [0xC0 + r div 64, 0x80 + r mod 64]
      else if r > 0x10FFFF \<or> (0xD800 \<le> r \<and> r \<le> 0xDFFF) then [0xEF, 0xBF, 0xBD]
      else if r \<le> 0xFFFF then
        [0xE0 + r div 4096, 0x80 + (r div 64) mod 64, 0x80 + r mod 64]
      else
        [0xF0 + r div 262144, 0x80 + (r div 4096) mod 64, 0x80 + (r div 64) mod 64,
         0x80 + r mod 64])"

definition WriteRune :: "string \<Rightarrow> rune \<Rightarrow> string" where
  "WriteRune current r = current @ map char_of (rune_bytes r)"

text \<open>
  The predicates of Go's \<^verbatim>\<open>unicode\<close> package. Each one answers the Latin-1 range
  (\<open>r \<le> 0xFF\<close>) itself and looks every other rune up in a range table of the Unicode
  database; the four tables are taken as a parameter.
\<close>

record unicode_tables =
  Upper :: "rune \<Rightarrow> bool"
  Letter :: "rune \<Rightarrow> bool"
  Digit :: "rune \<Rightarrow> bool"
  White_Space :: "rune \<Rightarrow> bool"

definition MaxLatin1 :: rune where
  "MaxLatin1 = 0xFF"

definition IsUpper :: "unicode_tables \<Rightarrow> rune \<Rightarrow> bool" where
  "IsUpper T r =
     (if r \<le> MaxLatin1 then
        (0x41 \<le> r \<and> r \<le> 0x5A) \<or> (0xC0 \<le> r \<and> r \<le> 0xD6) \<or> (0xD8 \<le> r \<and> r \<le> 0xDE)
      else Upper T r)"

definition IsLetter :: "unicode_tables \<Rightarrow> rune \<Rightarrow> bool" where
  "IsLetter T r =
     (if r \<le> MaxLatin1 then
        (0x41 \<le> r \<and> r \<le> 0x5A) \<or> (0x61 \<le> r \<and> r \<le> 0x7A) \<or> r = 0xAA \<or> r = 0xB5
        \<or> r = 0xBA \<or> (0xC0 \<le> r \<and> r \<le> 0xD6) \<or> (0xD8 \<le> r \<and> r \<le> 0xF6)
        \<or> (0xF8 \<le> r \<and> r \<le> 0xFF)
      else Letter T r)"

definition IsDigit :: "unicode_tables \<Rightarrow> rune \<Rightarrow> bool" where
  "IsDigit T r =
     (if r \<le> MaxLatin1 then 0x30 \<le> r \<and> r \<le> 0x39 else Digit T r)"

definition IsSpace :: "unicode_tables \<Rightarrow> rune \<Rightarrow> bool" where
  "IsSpace T r =
     (if r \<le> MaxLatin1 then
        r = 0x09 \<or> r = 0x0A \<or> r = 0x0B \<or> r = 0x0C \<or> r = 0x0D \<or> r = 0x20
        \<or> r = 0x85 \<or> r = 0xA0
      else White_Space T r)"

section \<open>splitIntoSentences\<close>

text \<open>
  The \<^verbatim>\<open>for\<close> loop of \<^verbatim>\<open>splitIntoSentences\<close>: \<open>i\<close> is the index, \<open>sentences\<close> the
  slice built so far and \<open>current\<close> the content of the builder. The loop returns both
  when \<open>i\<close> reaches the number of runes.
\<close>

definition isEndOfSentence :: "unicode_tables \<Rightarrow> rune list \<Rightarrow> nat \<Rightarrow> bool" where
  "isEndOfSentence T runes i =
     (let r = runes ! i in
      if r = 0x2E \<and> i > 0 then
        let prevRune = runes ! (i - 1) in
        \<not> (IsUpper T prevRune \<and> (i < 2 \<or> \<not> IsLetter T (runes ! (i - 2))))
        \<and> \<not> (IsDigit T prevRune \<and> i + 1 < length runes \<and> IsDigit T (runes ! (i + 1)))
      else True)"

function split_loop ::
  "unicode_tables \<Rightarrow> rune list \<Rightarrow> nat \<Rightarrow> string list \<Rightarrow> string \<Rightarrow> string list \<times> string"
where
  "split_loop T runes i sentences current =
     (if i < length runes then
        let r = runes ! i;
            current' = WriteRune current r
        in
          if (r = 0x2E \<or> r = 0x21 \<or> r = 0x3F)
             \<and> isEndOfSentence T runes i
             \<and> (i + 1 \<ge> length runes \<or> IsSpace T (runes ! (i + 1)))
          then split_loop T runes (i + 1) (sentences @ [current']) []
          else split_loop T runes (i + 1) sentences current'
      else (sentences, current))"
  by pat_completeness auto
termination
  by (relation "measure (\<lambda>(T, runes, i, sentences, current). length runes - i)") auto

definition splitIntoSentences :: "unicode_tables \<Rightarrow> string \<Rightarrow> string list" where
  "splitIntoSentences T text =
     (case split_loop T (string_to_runes text) 0 [] [] of
        (sentences, current) \<Rightarrow>
          if length current > 0 then sentences @ [current] else sentences)"

text \<open>The condition under which an iteration of the loop appends a sentence.\<close>

definition code_boundary :: "unicode_tables \<Rightarrow> rune list \<Rightarrow> nat \<Rightarrow> bool" where
  "code_boundary T runes i =
     ((runes ! i = 0x2E \<or> runes ! i = 0x21 \<or> runes ! i = 0x3F)
      \<and> isEndOfSentence T runes i
      \<and> (i + 1 \<ge> length runes \<or> IsSpace T (runes ! (i + 1))))"

text \<open>What the loop's state becomes after the loop: the \<^verbatim>\<open>current.Len() > 0\<close> test.\<close>

definition finish :: "string list \<times> string \<Rightarrow> string list" where
  "finish p = (case p of (sentences, current) \<Rightarrow>
      if length current > 0 then sentences @ [current] else sentences)"

text \<open>
  \<^verbatim>\<open>string(runes)\<close>: the bytes of a sequence of runes. \<open>ValidString\<close> is
  \<^verbatim>\<open>utf8.ValidString\<close>: no step of the decoding meets an ill-formed byte.
\<close>

definition runes_to_string :: "rune list \<Rightarrow> string" where
  "runes_to_string rs = concat (map (\<lambda>r. map char_of (rune_bytes r)) rs)"

fun valid_bytes :: "nat list \<Rightarrow> bool" where
  "valid_bytes [] = True"
| "valid_bytes (s0 # s) =
     (\<not> (fst (DecodeRune (s0 # s)) = RuneError \<and> snd (DecodeRune (s0 # s)) = 1)
      \<and> valid_bytes (drop (snd (DecodeRune (s0 # s)) - 1) s))"

definition ValidString :: "string \<Rightarrow> bool" where
  "ValidString text = valid_bytes (map of_char text)"

subsection \<open>The sentence boundary rule, in the words of the specification\<close>

text \<open>
  A candidate boundary is a \<open>.\<close>, \<open>!\<close> or \<open>?\<close> followed by whitespace or by the end of
  the input. A \<open>.\<close> is no boundary if it is preceded by a single uppercase letter that is
  not itself preceded by a letter, or if it is preceded by a digit and followed by a digit.
  The input is cut after every boundary; the text after the last boundary, when there is
  any, is the last element.
\<close>

definition spec_candidate :: "unicode_tables \<Rightarrow> rune list \<Rightarrow> nat \<Rightarrow> bool" where
  "spec_candidate T rs i =
     ((rs ! i = 0x2E \<or> rs ! i = 0x21 \<or> rs ! i = 0x3F)
      \<and> (i + 1 = length rs \<or> (i + 1 < length rs \<and> IsSpace T (rs ! (i + 1)))))"

definition abbreviation_guard :: "unicode_tables \<Rightarrow> rune list \<Rightarrow> nat \<Rightarrow> bool" where
  "abbreviation_guard T rs i =
     (rs ! i = 0x2E \<and> 1 \<le> i \<and> IsUpper T (rs ! (i - 1))
      \<and> (i = 1 \<or> \<not> IsLetter T (rs ! (i - 2))))"

definition decimal_guard :: "unicode_tables \<Rightarrow> rune list \<Rightarrow> nat \<Rightarrow> bool" where
  "decimal_guard T rs i =
     (rs ! i = 0x2E \<and> 1 \<le> i \<and> IsDigit T (rs ! (i - 1))
      \<and> i + 1 < length rs \<and> IsDigit T (rs ! (i + 1)))"

definition spec_boundary :: "unicode_tables \<Rightarrow> rune list \<Rightarrow> nat \<Rightarrow> bool" where
  "spec_boundary T rs i =
     (spec_candidate T rs i \<and> \<not> abbreviation_guard T rs i \<and> \<not> decimal_guard T rs i)"

text \<open>
  \<open>segments xs start bs\<close> cuts \<open>xs\<close>, from index \<open>start\<close> on, after each of the
  ascending positions \<open>bs\<close>.
\<close>

fun segments :: "'a list \<Rightarrow> nat \<Rightarrow> nat list \<Rightarrow> 'a list list" where
  "segments xs start [] = (if start < length xs then [drop start xs] else [])"
| "segments xs start (b # bs) = take (b + 1 - start) (drop start xs) # segments xs (b + 1) bs"

definition spec_split :: "unicode_tables \<Rightarrow> rune list \<Rightarrow> rune list list" where
  "spec_split T rs = segments rs 0 (filter (spec_boundary T rs) [0..<length rs])"

text \<open>
  A single complete sentence: the string ends in \<open>.\<close>, \<open>!\<close> or \<open>?\<close> and no position
  before its last rune is a boundary.
\<close>

definition ends_in_final_punctuation :: "string \<Rightarrow> bool" where
  "ends_in_final_punctuation text =
     (text \<noteq> [] \<and> (last text = CHR ''.'' \<or> last text = CHR ''!'' \<or> last text = CHR ''?''))"

definition single_complete_sentence :: "unicode_tables \<Rightarrow> string \<Rightarrow> bool" where
  "single_complete_sentence T text =
     (ends_in_final_punctuation text
      \<and> filter (spec_boundary T (string_to_runes text))
           [0..<length (string_to_runes text) - 1] = [])"

text \<open>
  Tables that hold no rune. They stand for the tables in the closed examples, none of
  which reaches a table lookup.
\<close>

definition empty_tables :: unicode_tables where
  "empty_tables =
     \<lparr>Upper = (\<lambda>r. False), Letter = (\<lambda>r. False), Digit = (\<lambda>r. False),
      White_Space = (\<lambda>r. False)\<rparr>"

section \<open>Channels, select and panics\<close>

text \<open>
  A buffered Go channel: the queued items, the capacity and whether it has been closed.
  Closing a closed channel and sending on a closed channel panic.
\<close>

datatype panic = SendOnClosedChannel | CloseOfClosedChannel

record 'a chan =
  chan_buf :: "'a list"
  chan_cap :: nat
  chan_closed :: bool

definition make_chan :: "nat \<Rightarrow> 'a chan" where
  "make_chan n = \<lparr>chan_buf = [], chan_cap = n, chan_closed = False\<rparr>"

definition close_chan :: "'a chan \<Rightarrow> panic + 'a chan" where
  "close_chan ch =
     (if chan_closed ch then Inl CloseOfClosedChannel else Inr (ch\<lparr>chan_closed := True\<rparr>))"

definition chan_send :: "'a chan \<Rightarrow> 'a \<Rightarrow> panic + 'a chan" where
  "chan_send ch x =
     (if chan_closed ch then Inl SendOnClosedChannel
      else Inr (ch\<lparr>chan_buf := chan_buf ch @ [x]\<rparr>))"

definition chan_recv :: "'a chan \<Rightarrow> 'a option \<times> 'a chan" where
  "chan_recv ch =
     (case chan_buf ch of
        [] \<Rightarrow> (None, ch)
      | x # xs \<Rightarrow> (Some x, ch\<lparr>chan_buf := xs\<rparr>))"

text \<open>
  The statement
  \<^verbatim>\<open>select { case ch <- x: ... case <-ctx.Done(): ... default: ... }\<close>.
  The send can proceed when the channel has room or is closed (it then panics); the
  receive from \<^verbatim>\<open>ctx.Done()\<close> can proceed when the context is done. When both can
  proceed the runtime picks one at random: \<open>pick_send\<close> is its choice. When neither can,
  the default case runs.
\<close>

datatype select_case = SendCase | DoneCase | DefaultCase

definition send_ready :: "'a chan \<Rightarrow> bool" where
  "send_ready ch = (chan_closed ch \<or> length (chan_buf ch) < chan_cap ch)"

definition select_send :: "bool \<Rightarrow> 'a chan \<Rightarrow> bool \<Rightarrow> select_case" where
  "select_send pick_send ch ctx_is_done =
     (if send_ready ch \<and> ctx_is_done then (if pick_send then SendCase else DoneCase)
      else if send_ready ch then SendCase
      else if ctx_is_done then DoneCase
      else DefaultCase)"

text \<open>Sequencing of steps that may panic.\<close>

definition and_then :: "panic + 'a \<Rightarrow> ('a \<Rightarrow> panic + 'b) \<Rightarrow> panic + 'b" where
  "and_then m f = (case m of Inl p \<Rightarrow> Inl p | Inr x \<Rightarrow> f x)"

text \<open>
  Error values: \<^verbatim>\<open>io.ErrClosedPipe\<close>, \<^verbatim>\<open>io.EOF\<close>, \<^verbatim>\<open>ctx.Err()\<close>, an error of the
  SDK or of the reader, and the results of \<^verbatim>\<open>fmt.Errorf\<close> with a plain message, with
  \<^verbatim>\<open>%w\<close> and with \<^verbatim>\<open>%s\<close>.
\<close>

datatype error =
    ErrClosedPipe
  | EOF
  | ctx_Err
  | SDKError string
  | Errorf string
  | Errorf_w string error
  | Errorf_s string string

section \<open>The STT stream: TranscribeStream, streamWriter, callbackHandler\<close>

text \<open>
  The events that the handler sends. \<open>'m\<close> is what
  \<^verbatim>\<open>MessageResponseToStreamEvent\<close> makes of a message: always an event of type
  \<^verbatim>\<open>EventTranscript\<close>.
\<close>

datatype 'm StreamEvent =
    EventTranscript 'm
  | EventSpeechStart
  | EventSpeechEnd
  | EventError error

text \<open>
  The objects that one call of \<^verbatim>\<open>TranscribeStream\<close> creates and shares: the event
  channel (held by the handler and by the writer), the context, the writer's \<^verbatim>\<open>done\<close>
  channel and \<^verbatim>\<open>closed\<close> flag, the calls that the Deepgram client has received, whether
  the goroutine that watches the context has ended, and what the consumer has received.
\<close>

record 'm stt_session =
  eventCh :: "'m StreamEvent chan"
  stt_ctx_done :: bool
  done_closed :: bool
  w_closed :: bool
  client_written :: "string list"
  client_stops :: nat
  watcher_exited :: bool
  events_received :: "'m StreamEvent list"

definition stt_new :: "bool \<Rightarrow> 'm stt_session" where
  "stt_new ctx_is_done =
     \<lparr>eventCh = make_chan 100, stt_ctx_done = ctx_is_done, done_closed = False,
      w_closed = False, client_written = [], client_stops = 0, watcher_exited = False,
      events_received = []\<rparr>"

text \<open>
  \<^verbatim>\<open>TranscribeStream\<close>, with the answers of the SDK as arguments: the error of
  \<^verbatim>\<open>NewWSUsingCallbackWithDefaults\<close> and the result of \<^verbatim>\<open>Connect\<close>. \<open>Inl\<close> is the
  return \<^verbatim>\<open>(nil, nil, err)\<close>, \<open>Inr ()\<close> the return \<^verbatim>\<open>(writer, eventCh, nil)\<close>.
\<close>

definition TranscribeStream ::
  "bool \<Rightarrow> error option \<Rightarrow> bool \<Rightarrow> panic + ('m stt_session \<times> (error + unit))" where
  "TranscribeStream ctx_is_done new_err connected =
     (let s = stt_new ctx_is_done in
      case new_err of
        Some e \<Rightarrow>
          and_then (close_chan (eventCh s))
            (\<lambda>ch. Inr (s\<lparr>eventCh := ch\<rparr>, Inl (Errorf_w ''failed to create Deepgram client'' e)))
      | None \<Rightarrow>
          if \<not> connected then
            and_then (close_chan (eventCh s))
              (\<lambda>ch. Inr (s\<lparr>eventCh := ch\<rparr>, Inl (Errorf ''failed to connect to Deepgram'')))
          else Inr (s, Inr ()))"

text \<open>
  \<^verbatim>\<open>streamWriter.Write\<close>. \<open>client_write\<close> is what the client's \<^verbatim>\<open>Write\<close> answers.
  The flag is read under the mutex and the client is called after the mutex is released;
  the two are one step here.
\<close>

definition streamWriter_Write ::
  "(string \<Rightarrow> nat \<times> error option) \<Rightarrow> 'm stt_session \<Rightarrow> string
     \<Rightarrow> 'm stt_session \<times> nat \<times> error option" where
  "streamWriter_Write client_write s p =
     (if w_closed s then (s, 0, Some ErrClosedPipe)
      else (s\<lparr>client_written := client_written s @ [p]\<rparr>, client_write p))"

text \<open>\<^verbatim>\<open>streamWriter.Close\<close>; the mutex is held from its first to its last statement.\<close>

definition streamWriter_Close :: "'m stt_session \<Rightarrow> panic + 'm stt_session" where
  "streamWriter_Close s =
     (if w_closed s then Inr s
      else
        let s1 = s\<lparr>w_closed := True\<rparr>;
            s2 = s1\<lparr>client_stops := client_stops s1 + 1\<rparr>
        in
          if done_closed s2 then Inl CloseOfClosedChannel
          else
            let s3 = s2\<lparr>done_closed := True\<rparr> in
            and_then (close_chan (eventCh s3)) (\<lambda>ch. Inr (s3\<lparr>eventCh := ch\<rparr>)))"

text \<open>
  The \<^verbatim>\<open>select\<close> that ends \<^verbatim>\<open>Message\<close>, \<^verbatim>\<open>SpeechStarted\<close>, \<^verbatim>\<open>UtteranceEnd\<close> and
  \<^verbatim>\<open>Error\<close> of \<^verbatim>\<open>callbackHandler\<close>, and the four callbacks. The value beside the
  session is the error that the callback returns.
\<close>

definition callbackHandler_select ::
  "bool \<Rightarrow> 'm stt_session \<Rightarrow> 'm StreamEvent \<Rightarrow> panic + ('m stt_session \<times> error option)" where
  "callbackHandler_select pick_send s event =
     (case select_send pick_send (eventCh s) (stt_ctx_done s) of
        SendCase \<Rightarrow>
          and_then (chan_send (eventCh s) event) (\<lambda>ch. Inr (s\<lparr>eventCh := ch\<rparr>, None))
      | DoneCase \<Rightarrow> Inr (s, Some ctx_Err)
      | DefaultCase \<Rightarrow> Inr (s, None))"

definition callbackHandler_Message ::
  "bool \<Rightarrow> 'm stt_session \<Rightarrow> 'm option \<Rightarrow> panic + ('m stt_session \<times> error option)" where
  "callbackHandler_Message pick_send s mr =
     (case mr of
        None \<Rightarrow> Inr (s, None)
      | Some m \<Rightarrow> callbackHandler_select pick_send s (EventTranscript m))"

definition callbackHandler_SpeechStarted ::
  "bool \<Rightarrow> 'm stt_session \<Rightarrow> panic + ('m stt_session \<times> error option)" where
  "callbackHandler_SpeechStarted pick_send s = callbackHandler_select pick_send s EventSpeechStart"

definition callbackHandler_UtteranceEnd ::
  "bool \<Rightarrow> 'm stt_session \<Rightarrow> panic + ('m stt_session \<times> error option)" where
  "callbackHandler_UtteranceEnd pick_send s = callbackHandler_select pick_send s EventSpeechEnd"

definition callbackHandler_Error ::
  "bool \<Rightarrow> 'm stt_session \<Rightarrow> string option \<Rightarrow> panic + ('m stt_session \<times> error option)" where
  "callbackHandler_Error pick_send s er =
     (case er of
        None \<Rightarrow> Inr (s, None)
      | Some description \<Rightarrow>
          callbackHandler_select pick_send s
            (EventError (Errorf_s ''deepgram error: '' description)))"

text \<open>
  What can happen to a session after \<^verbatim>\<open>TranscribeStream\<close> has returned it: the caller
  writes or closes, the context is cancelled, the watching goroutine runs its
  \<^verbatim>\<open>select\<close> (\<open>pick_done\<close> is the runtime's choice when both of its cases can proceed),
  the SDK calls a callback, the consumer receives from the channel.
\<close>

datatype 'm stt_event =
    CallerWrite string
  | CallerClose
  | CtxCancel
  | Watcher bool
  | OnMessage "'m option" bool
  | OnSpeechStarted bool
  | OnUtteranceEnd bool
  | OnError "string option" bool
  | ConsumerReceive

definition watcher_step :: "bool \<Rightarrow> 'm stt_session \<Rightarrow> panic + 'm stt_session" where
  "watcher_step pick_done s =
     (if watcher_exited s then Inr s
      else if stt_ctx_done s \<and> (\<not> done_closed s \<or> pick_done) then
        and_then (streamWriter_Close s) (\<lambda>s'. Inr (s'\<lparr>watcher_exited := True\<rparr>))
      else if done_closed s then Inr (s\<lparr>watcher_exited := True\<rparr>)
      else Inr s)"

definition stt_receive :: "'m stt_session \<Rightarrow> 'm stt_session" where
  "stt_receive s =
     (case chan_recv (eventCh s) of
        (None, ch) \<Rightarrow> s
      | (Some e, ch) \<Rightarrow> s\<lparr>eventCh := ch, events_received := events_received s @ [e]\<rparr>)"

text \<open>A callback as a step of the session: the error it returns is left out.\<close>

definition drop_result :: "panic + ('s \<times> 'r) \<Rightarrow> panic + 's" where
  "drop_result m = and_then m (\<lambda>(s, r). Inr s)"

fun stt_step ::
  "(string \<Rightarrow> nat \<times> error option) \<Rightarrow> 'm stt_session \<Rightarrow> 'm stt_event \<Rightarrow> panic + 'm stt_session"
where
  "stt_step cw s (CallerWrite p) = Inr (fst (streamWriter_Write cw s p))"
| "stt_step cw s CallerClose = streamWriter_Close s"
| "stt_step cw s CtxCancel = Inr (s\<lparr>stt_ctx_done := True\<rparr>)"
| "stt_step cw s (Watcher pick_done) = watcher_step pick_done s"
| "stt_step cw s (OnMessage mr pick) = drop_result (callbackHandler_Message pick s mr)"
| "stt_step cw s (OnSpeechStarted pick) = drop_result (callbackHandler_SpeechStarted pick s)"
| "stt_step cw s (OnUtteranceEnd pick) = drop_result (callbackHandler_UtteranceEnd pick s)"
| "stt_step cw s (OnError er pick) = drop_result (callbackHandler_Error pick s er)"
| "stt_step cw s ConsumerReceive = Inr (stt_receive s)"

fun stt_run ::
  "(string \<Rightarrow> nat \<times> error option) \<Rightarrow> 'm stt_session \<Rightarrow> 'm stt_event list
     \<Rightarrow> panic + 'm stt_session"
where
  "stt_run cw s [] = Inr s"
| "stt_run cw s (e # es) = and_then (stt_step cw s e) (\<lambda>s'. stt_run cw s' es)"

section \<open>The TTS streams: SynthesizeStream, SynthesizeFromReader, ttsCallbackHandler\<close>

text \<open>
  \<^verbatim>\<open>tts.StreamChunk\<close>, and the three chunks that the code builds: audio, the final marker
  and an error.
\<close>

record StreamChunk =
  Audio :: string
  IsFinal :: bool
  Error :: "error option"

definition audio_chunk :: "string \<Rightarrow> StreamChunk" where
  "audio_chunk data = \<lparr>Audio = data, IsFinal = False, Error = None\<rparr>"

definition final_chunk :: StreamChunk where
  "final_chunk = \<lparr>Audio = [], IsFinal = True, Error = None\<rparr>"

definition error_chunk :: "error \<Rightarrow> StreamChunk" where
  "error_chunk e = \<lparr>Audio = [], IsFinal = False, Error = Some e\<rparr>"

text \<open>Where the goroutine of a TTS stream stands.\<close>

datatype pc =
    AtSpeak
  | AtFlush
  | AtLoop
  | AtCancelFlush
  | AtEOFSpeak
  | AtEOFFlush
  | AtWait
  | AtReturn
  | Exited

text \<open>
  The objects of one TTS stream: the chunk channel, the context and the handler's
  \<^verbatim>\<open>closed\<close> flag; the calls that the websocket client has received
  (\<^verbatim>\<open>SpeakWithText\<close>, \<^verbatim>\<open>Flush\<close>, \<^verbatim>\<open>Finish\<close>); the goroutine's position and its
  \<^verbatim>\<open>textBuffer\<close>; what the consumer has received.
\<close>

record tts_session =
  chunkCh :: "StreamChunk chan"
  tts_ctx_done :: bool
  h_closed :: bool
  spoken :: "string list"
  flushes :: nat
  finishes :: nat
  go_pc :: pc
  textBuffer :: string
  chunks_received :: "StreamChunk list"

definition tts_new :: "bool \<Rightarrow> pc \<Rightarrow> tts_session" where
  "tts_new ctx_is_done start =
     \<lparr>chunkCh = make_chan 100, tts_ctx_done = ctx_is_done, h_closed = False, spoken = [],
      flushes = 0, finishes = 0, go_pc = start, textBuffer = [], chunks_received = []\<rparr>"

text \<open>
  The part of \<^verbatim>\<open>SynthesizeStream\<close> and of \<^verbatim>\<open>SynthesizeFromReader\<close> before the
  \<^verbatim>\<open>go\<close> statement; the two are the same code. \<open>new_err\<close> is the error of
  \<^verbatim>\<open>NewWSUsingCallback\<close>, \<open>connected\<close> the result of \<^verbatim>\<open>Connect\<close>. \<open>Inl\<close> is the
  return \<^verbatim>\<open>(nil, err)\<close>, \<open>Inr ()\<close> the return \<^verbatim>\<open>(chunkCh, nil)\<close>. On a failure no
  goroutine is started: its position is \<open>Exited\<close>. \<open>start\<close> is where the goroutine of
  the operation begins.
\<close>

definition tts_open ::
  "pc \<Rightarrow> bool \<Rightarrow> error option \<Rightarrow> bool \<Rightarrow> panic + (tts_session \<times> (error + unit))" where
  "tts_open start ctx_is_done new_err connected =
     (let s = tts_new ctx_is_done start in
      case new_err of
        Some e \<Rightarrow>
          and_then (close_chan (chunkCh s))
            (\<lambda>ch. Inr (s\<lparr>chunkCh := ch, go_pc := Exited\<rparr>,
                        Inl (Errorf_w ''failed to create Deepgram TTS client'' e)))
      | None \<Rightarrow>
          if \<not> connected then
            and_then (close_chan (chunkCh s))
              (\<lambda>ch. Inr (s\<lparr>chunkCh := ch, go_pc := Exited\<rparr>,
                          Inl (Errorf ''failed to connect to Deepgram TTS'')))
          else Inr (s, Inr ()))"

definition SynthesizeStream ::
  "bool \<Rightarrow> error option \<Rightarrow> bool \<Rightarrow> panic + (tts_session \<times> (error + unit))" where
  "SynthesizeStream = tts_open AtSpeak"

definition SynthesizeFromReader ::
  "bool \<Rightarrow> error option \<Rightarrow> bool \<Rightarrow> panic + (tts_session \<times> (error + unit))" where
  "SynthesizeFromReader = tts_open AtLoop"

text \<open>\<^verbatim>\<open>ttsCallbackHandler.sendChunk\<close>; it holds the handler's mutex throughout.\<close>

definition sendChunk :: "bool \<Rightarrow> tts_session \<Rightarrow> StreamChunk \<Rightarrow> panic + tts_session" where
  "sendChunk pick_send s chunk =
     (if h_closed s then Inr s
      else
        case select_send pick_send (chunkCh s) (tts_ctx_done s) of
          SendCase \<Rightarrow> and_then (chan_send (chunkCh s) chunk) (\<lambda>ch. Inr (s\<lparr>chunkCh := ch\<rparr>))
        | DoneCase \<Rightarrow> Inr s
        | DefaultCase \<Rightarrow> Inr s)"

definition ttsCallbackHandler_Flush :: "bool \<Rightarrow> tts_session \<Rightarrow> panic + tts_session" where
  "ttsCallbackHandler_Flush pick_send s = sendChunk pick_send s final_chunk"

definition ttsCallbackHandler_Error ::
  "bool \<Rightarrow> tts_session \<Rightarrow> string option \<Rightarrow> panic + tts_session" where
  "ttsCallbackHandler_Error pick_send s er =
     (case er of
        None \<Rightarrow> Inr s
      | Some description \<Rightarrow>
          sendChunk pick_send s (error_chunk (Errorf_s ''deepgram TTS error: '' description)))"

definition ttsCallbackHandler_Binary :: "bool \<Rightarrow> tts_session \<Rightarrow> string \<Rightarrow> panic + tts_session" where
  "ttsCallbackHandler_Binary pick_send s data = sendChunk pick_send s (audio_chunk data)"

text \<open>
  The deferred function of both goroutines: \<^verbatim>\<open>Finish\<close>, then the guarded close under
  the handler's mutex.
\<close>

definition deferred_close :: "tts_session \<Rightarrow> panic + tts_session" where
  "deferred_close s =
     (let s1 = s\<lparr>finishes := finishes s + 1, go_pc := Exited\<rparr> in
      if \<not> h_closed s1 then
        let s2 = s1\<lparr>h_closed := True\<rparr> in
        and_then (close_chan (chunkCh s2)) (\<lambda>ch. Inr (s2\<lparr>chunkCh := ch\<rparr>))
      else Inr s1)"

text \<open>
  What the environment answers during one step of a goroutine: the error of the
  \<open>k\<close>-th call of \<^verbatim>\<open>SpeakWithText\<close> in the step, the error of \<^verbatim>\<open>Flush\<close>, the result of
  \<^verbatim>\<open>ReadString\<close>, and the runtime's choice in the \<^verbatim>\<open>select\<close> of \<^verbatim>\<open>sendChunk\<close>.
\<close>

record go_input =
  speak_err :: "nat \<Rightarrow> error option"
  flush_err :: "error option"
  read_result :: "string \<times> error option"
  pick :: bool

text \<open>\<^verbatim>\<open>handler.sendChunk(tts.StreamChunk{Error: ...}); return\<close>\<close>

definition send_error_and_return :: "bool \<Rightarrow> tts_session \<Rightarrow> error \<Rightarrow> panic + tts_session" where
  "send_error_and_return pick_send s e =
     and_then (sendChunk pick_send s (error_chunk e)) (\<lambda>s'. Inr (s'\<lparr>go_pc := AtReturn\<rparr>))"

text \<open>
  One step of the goroutine of \<^verbatim>\<open>SynthesizeStream\<close>: send the text, flush, wait for the
  context, run the deferred function.
\<close>

definition stream_step :: "string \<Rightarrow> go_input \<Rightarrow> tts_session \<Rightarrow> panic + tts_session" where
  "stream_step txt inp s =
     (case go_pc s of
        AtSpeak \<Rightarrow>
          (let s1 = s\<lparr>spoken := spoken s @ [txt]\<rparr> in
           case speak_err inp 0 of
             Some e \<Rightarrow> send_error_and_return (pick inp) s1 (Errorf_w ''failed to send text'' e)
           | None \<Rightarrow> Inr (s1\<lparr>go_pc := AtFlush\<rparr>))
      | AtFlush \<Rightarrow>
          (let s1 = s\<lparr>flushes := flushes s + 1\<rparr> in
           case flush_err inp of
             Some e \<Rightarrow> send_error_and_return (pick inp) s1 (Errorf_w ''failed to flush'' e)
           | None \<Rightarrow> Inr (s1\<lparr>go_pc := AtWait\<rparr>))
      | AtWait \<Rightarrow> (if tts_ctx_done s then Inr (s\<lparr>go_pc := AtReturn\<rparr>) else Inr s)
      | AtReturn \<Rightarrow> deferred_close s
      | _ \<Rightarrow> Inr s)"

text \<open>
  The \<^verbatim>\<open>for _, sentence := range sentences[:len(sentences)-1]\<close> loop of
  \<^verbatim>\<open>SynthesizeFromReader\<close>: \<open>k\<close> counts the calls of \<^verbatim>\<open>SpeakWithText\<close> made so far
  in the step; the result is the texts passed to \<^verbatim>\<open>SpeakWithText\<close> and the error that
  stopped the loop, if any.
\<close>

fun speak_sentences ::
  "(string \<Rightarrow> string) \<Rightarrow> (nat \<Rightarrow> error option) \<Rightarrow> nat \<Rightarrow> string list
     \<Rightarrow> string list \<times> error option"
where
  "speak_sentences TrimSpace answers k [] = ([], None)"
| "speak_sentences TrimSpace answers k (sentence # rest) =
     (let sentence' = TrimSpace sentence in
      if sentence' \<noteq> [] then
        (case answers k of
           Some e \<Rightarrow> ([sentence'], Some e)
         | None \<Rightarrow>
             (case speak_sentences TrimSpace answers (k + 1) rest of
                (texts, r) \<Rightarrow> (sentence' # texts, r)))
      else speak_sentences TrimSpace answers k rest)"

text \<open>\<^verbatim>\<open>err != nil && err != io.EOF\<close>, with the error when it holds.\<close>

definition read_failure :: "error option \<Rightarrow> error option" where
  "read_failure err = (case err of None \<Rightarrow> None | Some e \<Rightarrow> if e \<noteq> EOF then Some e else None)"

text \<open>
  The block \<^verbatim>\<open>if len(chunk) > 0 { ... }\<close> of \<^verbatim>\<open>SynthesizeFromReader\<close>; \<open>next\<close> is
  where the goroutine goes on when the block does not return.
\<close>

definition reader_chunk ::
  "(string \<Rightarrow> string) \<Rightarrow> unicode_tables \<Rightarrow> go_input \<Rightarrow> tts_session \<Rightarrow> string \<Rightarrow> pc
     \<Rightarrow> panic + tts_session"
where
  "reader_chunk TrimSpace T inp s chunk next =
     (if length chunk > 0 then
        (let s1 = s\<lparr>textBuffer := textBuffer s @ chunk\<rparr>;
             sentences = splitIntoSentences T (textBuffer s1)
         in
           if length sentences > 1 then
             (case speak_sentences TrimSpace (speak_err inp) 0 (butlast sentences) of
                (texts, Some e) \<Rightarrow>
                  send_error_and_return (pick inp) (s1\<lparr>spoken := spoken s1 @ texts\<rparr>)
                    (Errorf_w ''failed to send text'' e)
              | (texts, None) \<Rightarrow>
                  Inr (s1\<lparr>spoken := spoken s1 @ texts, textBuffer := last sentences,
                          go_pc := next\<rparr>))
           else Inr (s1\<lparr>go_pc := next\<rparr>))
      else Inr (s\<lparr>go_pc := next\<rparr>))"

text \<open>
  One step of the goroutine of \<^verbatim>\<open>SynthesizeFromReader\<close>. \<open>AtLoop\<close> is the head of the
  \<^verbatim>\<open>for\<close> loop; a step from there runs the \<^verbatim>\<open>ctx.Done()\<close> case up to its
  \<^verbatim>\<open>Flush\<close>, or the default case up to the test \<^verbatim>\<open>err == io.EOF\<close>. \<open>TrimSpace\<close> is
  \<^verbatim>\<open>strings.TrimSpace\<close>.
\<close>

definition reader_step ::
  "(string \<Rightarrow> string) \<Rightarrow> unicode_tables \<Rightarrow> go_input \<Rightarrow> tts_session \<Rightarrow> panic + tts_session"
where
  "reader_step TrimSpace T inp s =
     (case go_pc s of
        AtLoop \<Rightarrow>
          if tts_ctx_done s then
            (if length (textBuffer s) > 0 \<and> TrimSpace (textBuffer s) \<noteq> [] then
               (let s1 = s\<lparr>spoken := spoken s @ [TrimSpace (textBuffer s)]\<rparr> in
                case speak_err inp 0 of
                  Some e \<Rightarrow>
                    and_then
                      (sendChunk (pick inp) s1 (error_chunk (Errorf_w ''failed to send text'' e)))
                      (\<lambda>s'. Inr (s'\<lparr>go_pc := AtCancelFlush\<rparr>))
                | None \<Rightarrow> Inr (s1\<lparr>go_pc := AtCancelFlush\<rparr>))
             else Inr (s\<lparr>go_pc := AtCancelFlush\<rparr>))
          else
            (case read_result inp of (chunk, err) \<Rightarrow>
               (case read_failure err of
                  Some e \<Rightarrow>
                    send_error_and_return (pick inp) s (Errorf_w ''failed to read text'' e)
                | None \<Rightarrow>
                    reader_chunk TrimSpace T inp s chunk
                      (if err = Some EOF then AtEOFSpeak else AtLoop)))
      | AtCancelFlush \<Rightarrow>
          (let s1 = s\<lparr>flushes := flushes s + 1\<rparr> in
           case flush_err inp of
             Some e \<Rightarrow> send_error_and_return (pick inp) s1 (Errorf_w ''failed to flush'' e)
           | None \<Rightarrow> Inr (s1\<lparr>go_pc := AtReturn\<rparr>))
      | AtEOFSpeak \<Rightarrow>
          (let remaining = TrimSpace (textBuffer s) in
           if remaining \<noteq> [] then
             (let s1 = s\<lparr>spoken := spoken s @ [remaining]\<rparr> in
              case speak_err inp 0 of
                Some e \<Rightarrow> send_error_and_return (pick inp) s1 (Errorf_w ''failed to send text'' e)
              | None \<Rightarrow> Inr (s1\<lparr>go_pc := AtEOFFlush\<rparr>))
           else Inr (s\<lparr>go_pc := AtEOFFlush\<rparr>))
      | AtEOFFlush \<Rightarrow>
          (let s1 = s\<lparr>flushes := flushes s + 1\<rparr> in
           case flush_err inp of
             Some e \<Rightarrow>
               and_then (sendChunk (pick inp) s1 (error_chunk (Errorf_w ''failed to flush'' e)))
                 (\<lambda>s'. Inr (s'\<lparr>go_pc := AtWait\<rparr>))
           | None \<Rightarrow> Inr (s1\<lparr>go_pc := AtWait\<rparr>))
      | AtWait \<Rightarrow> (if tts_ctx_done s then Inr (s\<lparr>go_pc := AtReturn\<rparr>) else Inr s)
      | AtReturn \<Rightarrow> deferred_close s
      | _ \<Rightarrow> Inr s)"

text \<open>
  What can happen to a TTS stream after the call has returned it: the SDK calls a
  callback, the context is cancelled, the goroutine takes a step, the consumer receives.
\<close>

datatype tts_event =
    OnBinary string bool
  | OnFlush bool
  | OnTTSError "string option" bool
  | Cancel
  | Go go_input
  | Receive

definition tts_receive :: "tts_session \<Rightarrow> tts_session" where
  "tts_receive s =
     (case chan_recv (chunkCh s) of
        (None, ch) \<Rightarrow> s
      | (Some c, ch) \<Rightarrow> s\<lparr>chunkCh := ch, chunks_received := chunks_received s @ [c]\<rparr>)"

fun tts_step ::
  "(go_input \<Rightarrow> tts_session \<Rightarrow> panic + tts_session) \<Rightarrow> tts_session \<Rightarrow> tts_event
     \<Rightarrow> panic + tts_session"
where
  "tts_step goroutine s (OnBinary data p) = ttsCallbackHandler_Binary p s data"
| "tts_step goroutine s (OnFlush p) = ttsCallbackHandler_Flush p s"
| "tts_step goroutine s (OnTTSError er p) = ttsCallbackHandler_Error p s er"
| "tts_step goroutine s Cancel = Inr (s\<lparr>tts_ctx_done := True\<rparr>)"
| "tts_step goroutine s (Go inp) = goroutine inp s"
| "tts_step goroutine s Receive = Inr (tts_receive s)"

fun tts_run ::
  "(go_input \<Rightarrow> tts_session \<Rightarrow> panic + tts_session) \<Rightarrow> tts_session \<Rightarrow> tts_event list
     \<Rightarrow> panic + tts_session"
where
  "tts_run goroutine s [] = Inr s"
| "tts_run goroutine s (e # es) = and_then (tts_step goroutine s e) (\<lambda>s'. tts_run goroutine s' es)"

section \<open>Invariants, observations and example runs\<close>

text \<open>
  What holds of an STT session from \<^verbatim>\<open>TranscribeStream\<close> on: the channel is closed exactly
  when the writer's flag is set, and then the client has been stopped once.
\<close>

definition stt_inv :: "'m stt_session \<Rightarrow> bool" where
  "stt_inv s =
     (chan_closed (eventCh s) = w_closed s \<and> done_closed s = w_closed s
      \<and> client_stops s = (if w_closed s then 1 else 0)
      \<and> (watcher_exited s \<longrightarrow> w_closed s)
      \<and> chan_cap (eventCh s) = 100 \<and> length (chan_buf (eventCh s)) \<le> 100)"

text \<open>
  \<open>close_triggered cancelled es\<close>: among the events \<open>es\<close> the caller closes the writer, or
  the watching goroutine runs after the context is done (\<open>cancelled\<close>: it is done before
  \<open>es\<close>).
\<close>

fun close_triggered :: "bool \<Rightarrow> 'm stt_event list \<Rightarrow> bool" where
  "close_triggered cancelled [] = False"
| "close_triggered cancelled (CallerClose # es) = True"
| "close_triggered cancelled (CtxCancel # es) = close_triggered True es"
| "close_triggered cancelled (Watcher p # es) = (cancelled \<or> close_triggered cancelled es)"
| "close_triggered cancelled (e # es) = close_triggered cancelled es"

text \<open>
  The items put on the chunk channel so far, in order: those the consumer has received and
  those still queued.
\<close>

definition delivered :: "tts_session \<Rightarrow> StreamChunk list" where
  "delivered s = chunks_received s @ chan_buf (chunkCh s)"

text \<open>
  The positions at which the goroutine has not called \<^verbatim>\<open>Flush\<close> yet.
\<close>

definition before_flush :: "pc \<Rightarrow> bool" where
  "before_flush p = (p = AtSpeak \<or> p = AtFlush \<or> p = AtLoop \<or> p = AtCancelFlush
      \<or> p = AtEOFSpeak \<or> p = AtEOFFlush)"

text \<open>
  What holds of a TTS stream while it runs: the channel is closed exactly when the handler's
  flag is set, which is exactly when the goroutine has ended, and then \<^verbatim>\<open>Finish\<close> has
  been called once; at most one \<^verbatim>\<open>Flush\<close> has been requested.
\<close>

definition chan_inv :: "tts_session \<Rightarrow> bool" where
  "chan_inv s =
     (chan_closed (chunkCh s) = h_closed s \<and> h_closed s = (go_pc s = Exited)
      \<and> finishes s = (if go_pc s = Exited then 1 else 0)
      \<and> chan_cap (chunkCh s) = 100 \<and> length (chan_buf (chunkCh s)) \<le> 100)"

definition flush_inv :: "tts_session \<Rightarrow> bool" where
  "flush_inv s = (flushes s \<le> 1 \<and> (before_flush (go_pc s) \<longrightarrow> flushes s = 0))"

definition tts_inv :: "tts_session \<Rightarrow> bool" where
  "tts_inv s = (chan_inv s \<and> flush_inv s)"

text \<open>
  \<open>grows_by_error s s'\<close>: the items put on the channel up to \<open>s'\<close> are those up to
  \<open>s\<close>, or those and one error chunk.
\<close>

definition grows_by_error :: "tts_session \<Rightarrow> tts_session \<Rightarrow> bool" where
  "grows_by_error s s' =
     (delivered s' = delivered s \<or> (\<exists>e. delivered s' = delivered s @ [error_chunk e]))"

text \<open>
  The positions of each goroutine, and a bound on the steps each position is from the end
  once the context is done.
\<close>

definition stream_pcs :: "pc \<Rightarrow> bool" where
  "stream_pcs p = (p = AtSpeak \<or> p = AtFlush \<or> p = AtWait \<or> p = AtReturn \<or> p = Exited)"

definition reader_pcs :: "pc \<Rightarrow> bool" where
  "reader_pcs p = (p = AtLoop \<or> p = AtCancelFlush \<or> p = AtEOFSpeak \<or> p = AtEOFFlush
      \<or> p = AtWait \<or> p = AtReturn \<or> p = Exited)"

fun steps_left :: "pc \<Rightarrow> nat" where
  "steps_left AtSpeak = 4"
| "steps_left AtFlush = 3"
| "steps_left AtLoop = 3"
| "steps_left AtCancelFlush = 2"
| "steps_left AtEOFSpeak = 4"
| "steps_left AtEOFFlush = 3"
| "steps_left AtWait = 2"
| "steps_left AtReturn = 1"
| "steps_left Exited = 0"

text \<open>
  What one step of a goroutine keeps and changes.
\<close>

definition go_ok :: "(pc \<Rightarrow> bool) \<Rightarrow> tts_session \<Rightarrow> tts_session \<Rightarrow> bool" where
  "go_ok pcs s s' =
     (tts_inv s' \<and> pcs (go_pc s') \<and> tts_ctx_done s' = tts_ctx_done s \<and> grows_by_error s s'
      \<and> (go_pc s = Exited \<longrightarrow> go_pc s' = Exited)
      \<and> (tts_ctx_done s \<longrightarrow> steps_left (go_pc s') < steps_left (go_pc s) \<or> go_pc s = Exited))"

text \<open>
  Kinds of events, and the number of final markers put on the channel so far.
\<close>

fun is_OnFlush :: "tts_event \<Rightarrow> bool" where
  "is_OnFlush (OnFlush p) = True"
| "is_OnFlush e = False"

fun is_Go :: "tts_event \<Rightarrow> bool" where
  "is_Go (Go inp) = True"
| "is_Go e = False"

definition final_markers :: "tts_session \<Rightarrow> nat" where
  "final_markers s = length (filter IsFinal (delivered s))"

text \<open>
  A goroutine whose every step keeps the invariant.
\<close>

definition goroutine_ok ::
  "(pc \<Rightarrow> bool) \<Rightarrow> (go_input \<Rightarrow> tts_session \<Rightarrow> panic + tts_session) \<Rightarrow> bool" where
  "goroutine_ok pcs g =
     (\<forall>inp s. tts_inv s \<and> pcs (go_pc s) \<longrightarrow> (\<exists>s'. g inp s = Inr s' \<and> go_ok pcs s s'))"

text \<open>
  A producer that offers its items one after the other, no consumer reading in between:
  on the chunk channel through \<^verbatim>\<open>sendChunk\<close>, on the event channel through the
  \<^verbatim>\<open>select\<close> of \<^verbatim>\<open>callbackHandler\<close>.
\<close>

fun send_all :: "tts_session \<Rightarrow> (StreamChunk \<times> bool) list \<Rightarrow> panic + tts_session" where
  "send_all s [] = Inr s"
| "send_all s ((chunk, p) # rest) = and_then (sendChunk p s chunk) (\<lambda>s'. send_all s' rest)"

fun emit_all :: "'m stt_session \<Rightarrow> ('m StreamEvent \<times> bool) list \<Rightarrow> panic + 'm stt_session" where
  "emit_all s [] = Inr s"
| "emit_all s ((event, p) # rest) =
     and_then (drop_result (callbackHandler_select p s event)) (\<lambda>s'. emit_all s' rest)"

text \<open>
  A stream whose channel is closed and has never held an item.
\<close>

definition tts_failed :: "tts_session \<Rightarrow> bool" where
  "tts_failed s = (chan_closed (chunkCh s) \<and> delivered s = [] \<and> go_pc s = Exited)"

definition stt_failed :: "'m stt_session \<Rightarrow> bool" where
  "stt_failed s =
     (chan_closed (eventCh s) \<and> chan_buf (eventCh s) = [] \<and> events_received s = [])"

text \<open>
  A chunk channel and an event channel that are full.
\<close>

definition full_tts :: tts_session where
  "full_tts = (tts_new False AtSpeak)
     \<lparr>chunkCh := \<lparr>chan_buf = replicate 100 (audio_chunk ''a''), chan_cap = 100, chan_closed = False\<rparr>\<rparr>"

definition full_stt :: "string stt_session" where
  "full_stt = (stt_new False)
     \<lparr>eventCh := \<lparr>chan_buf = replicate 100 EventSpeechStart, chan_cap = 100, chan_closed = False\<rparr>\<rparr>"

text \<open>
  The number of steps that the goroutine takes among the events \<open>es\<close> after the context
  is done.
\<close>

fun steps_after_cancel :: "bool \<Rightarrow> tts_event list \<Rightarrow> nat" where
  "steps_after_cancel cancelled [] = 0"
| "steps_after_cancel cancelled (Cancel # es) = steps_after_cancel True es"
| "steps_after_cancel cancelled (Go inp # es) =
     (if cancelled then 1 else 0) + steps_after_cancel cancelled es"
| "steps_after_cancel cancelled (e # es) = steps_after_cancel cancelled es"

text \<open>
  An environment in which no call fails and the reader is at its end.
\<close>

definition no_errors :: go_input where
  "no_errors = \<lparr>speak_err = (\<lambda>k. None), flush_err = None, read_result = ([], Some EOF), pick = True\<rparr>"

text \<open>
  The items put on the channel that are not error chunks.
\<close>

definition nonerror_items :: "tts_session \<Rightarrow> StreamChunk list" where
  "nonerror_items s = filter (\<lambda>c. Error c = None) (delivered s)"

fun is_OnBinary :: "tts_event \<Rightarrow> bool" where
  "is_OnBinary (OnBinary data p) = True"
| "is_OnBinary e = False"

text \<open>
  A stream that completes without error: the text is sent and flushed, the provider sends
  100 audio chunks and then acknowledges the flush, no consumer has read yet; the context
  is cancelled afterwards and the goroutine ends.
\<close>

definition graceful_run :: "tts_event list" where
  "graceful_run =
     [Go no_errors, Go no_errors] @ replicate 100 (OnBinary ''a'' True)
       @ [OnFlush True, Cancel, Go no_errors, Go no_errors]"

definition after_graceful_run :: tts_session where
  "after_graceful_run =
     \<lparr>chunkCh = \<lparr>chan_buf = replicate 100 (audio_chunk ''a''), chan_cap = 100, chan_closed = True\<rparr>,
      tts_ctx_done = True, h_closed = True, spoken = [''Hi.''], flushes = 1, finishes = 1,
      go_pc = Exited, textBuffer = [], chunks_received = []\<rparr>"

section \<open>Properties of splitIntoSentences\<close>

declare split_loop.simps [simp del]
declare DecodeRune.simps [simp del]

lemmas split_eval =
  splitIntoSentences_def string_to_runes_def split_loop.simps isEndOfSentence_def
  WriteRune_def rune_bytes_def IsUpper_def IsLetter_def IsDigit_def IsSpace_def MaxLatin1_def
  DecodeRune.simps first_size_def accept_lo_def accept_hi_def cont_byte_def RuneError_def
  Let_def char_of_def bit_Suc_0_iff

lemma runes_to_string_Nil [simp]: "runes_to_string [] = []"
  by (simp add: runes_to_string_def)

lemma runes_to_string_append [simp]:
  "runes_to_string (xs @ ys) = runes_to_string xs @ runes_to_string ys"
  by (simp add: runes_to_string_def)

lemma WriteRune_runes: "WriteRune (runes_to_string xs) r = runes_to_string (xs @ [r])"
  by (simp add: WriteRune_def runes_to_string_def)

lemma split_loop_done:
  "\<not> i < length runes \<Longrightarrow> split_loop T runes i ss cur = (ss, cur)"
  by (subst split_loop.simps) simp

lemma split_loop_step:
  "i < length runes \<Longrightarrow>
   split_loop T runes i ss cur =
     (if code_boundary T runes i
      then split_loop T runes (Suc i) (ss @ [WriteRune cur (runes ! i)]) []
      else split_loop T runes (Suc i) ss (WriteRune cur (runes ! i)))"
  by (subst split_loop.simps) (auto simp add: Let_def code_boundary_def)

lemma split_loop_concat:
  "split_loop T runes i ss cur = (ss', cur') \<Longrightarrow>
   concat ss' @ cur' = concat ss @ cur @ runes_to_string (drop i runes)"
proof (induction "length runes - i" arbitrary: i ss cur)
  case 0
  then show ?case by (simp add: split_loop_done)
next
  case (Suc n)
  then have lt: "i < length runes" and n: "n = length runes - Suc i" by simp_all
  have d: "drop i runes = runes ! i # drop (Suc i) runes"
    using lt by (simp add: Cons_nth_drop_Suc)
  have w: "WriteRune cur (runes ! i) @ runes_to_string (drop (Suc i) runes)
      = cur @ runes_to_string (drop i runes)"
    by (simp add: d WriteRune_def runes_to_string_def)
  show ?case
  proof (cases "code_boundary T runes i")
    case True
    with Suc.prems lt have
      "split_loop T runes (Suc i) (ss @ [WriteRune cur (runes ! i)]) [] = (ss', cur')"
      by (simp add: split_loop_step)
    from Suc.hyps(1)[OF n this] show ?thesis using w by simp
  next
    case False
    with Suc.prems lt have
      "split_loop T runes (Suc i) ss (WriteRune cur (runes ! i)) = (ss', cur')"
      by (simp add: split_loop_step)
    from Suc.hyps(1)[OF n this] show ?thesis using w by simp
  qed
qed

lemma concat_split:
  "concat (splitIntoSentences T text) = runes_to_string (string_to_runes text)"
proof -
  obtain ss cur where s: "split_loop T (string_to_runes text) 0 [] [] = (ss, cur)"
    by (cases "split_loop T (string_to_runes text) 0 [] []")
  from split_loop_concat[OF s] have "concat ss @ cur = runes_to_string (string_to_runes text)"
    by simp
  then show ?thesis by (cases "cur = []") (simp_all add: splitIntoSentences_def s)
qed

subsection \<open>Decoding and encoding of valid UTF-8\<close>

lemma mod_offset: "a < m \<Longrightarrow> (q * m + a) mod m = (a::nat)"
  by simp

lemma m32: "a < 32 \<Longrightarrow> (192 + a) mod 32 = (a::nat)"
  using mod_offset[of a 32 6] by simp

lemma m16: "a < 16 \<Longrightarrow> (224 + a) mod 16 = (a::nat)"
  using mod_offset[of a 16 14] by simp

lemma m8: "a < 8 \<Longrightarrow> (240 + a) mod 8 = (a::nat)"
  using mod_offset[of a 8 30] by simp

lemma m64: "b < 64 \<Longrightarrow> (128 + b) mod 64 = (b::nat)"
  using mod_offset[of b 64 2] by simp

lemma rb1: "r \<le> 0x7F \<Longrightarrow> rune_bytes r = [r]"
  by (simp add: rune_bytes_def)

lemma rb2: "a < 32 \<Longrightarrow> 2 \<le> a \<Longrightarrow> b < 64 \<Longrightarrow> rune_bytes (a * 64 + b) = [0xC0 + a, 0x80 + b]"
proof -
  assume h: "a < 32" "2 \<le> a" "b < 64"
  have d: "(a * 64 + b) div 64 = a" "(a * 64 + b) mod 64 = b" using h by simp_all
  have "128 \<le> a * 64" using h by simp
  then have lo: "\<not> a * 64 + b \<le> 0x7F" by simp
  have "a * 64 \<le> 31 * 64" using h by simp
  then have hi: "a * 64 + b \<le> 0x7FF" using h by simp
  show ?thesis unfolding rune_bytes_def using lo hi d by simp
qed

lemma rb3:
  assumes h: "a < 16" "b < 64" "c < 64" and lo: "a = 0 \<longrightarrow> 32 \<le> b" and sg: "a = 13 \<longrightarrow> b \<le> 31"
  shows "rune_bytes (a * 4096 + b * 64 + c) = [0xE0 + a, 0x80 + b, 0x80 + c]"
proof -
  let ?r = "a * 4096 + b * 64 + c"
  have e: "?r = (a * 64 + b) * 64 + c" by simp
  have bc: "b * 64 + c < 4096" using h by simp
  have d1: "?r div 4096 = a" using bc by simp
  have d2: "?r div 64 = a * 64 + b" by (subst e) (simp only: div_mult_self3 div_less h add_0_right zero_neq_numeral not_False_eq_True)
  have d3: "(a * 64 + b) mod 64 = b" using h by simp
  have d4: "?r mod 64 = c" by (subst e) (simp only: mod_mult_self3 mod_less h)
  have g1: "\<not> ?r \<le> 0x7FF"
  proof (cases "a = 0")
    case True
    then have "32 * 64 \<le> b * 64" using lo by simp
    then show ?thesis by simp
  next
    case False
    then have "1 * 4096 \<le> a * 4096" by simp
    then show ?thesis by simp
  qed
  have g2: "\<not> (0xD800 \<le> ?r \<and> ?r \<le> 0xDFFF)"
  proof -
    consider "a \<le> 12" | "a = 13" | "14 \<le> a" by linarith
    then show ?thesis
    proof cases
      case 1
      then have "a * 4096 \<le> 12 * 4096" by simp
      then show ?thesis using bc by simp
    next
      case 2
      then have "b * 64 \<le> 31 * 64" using sg by simp
      then show ?thesis using 2 h by simp
    next
      case 3
      then have "14 * 4096 \<le> a * 4096" by simp
      then show ?thesis by simp
    qed
  qed
  have "a * 4096 \<le> 15 * 4096" using h by simp
  then have g3: "?r \<le> 0xFFFF" "\<not> ?r > 0x10FFFF" using bc by simp_all
  have g0: "\<not> ?r \<le> 0x7F" using g1 by simp
  show ?thesis
    unfolding rune_bytes_def using g0 g1 g2 g3 by (simp only: if_False if_True d1 d2 d3 d4 simp_thms)
qed


lemma rb4:
  assumes h: "a < 5" "b < 64" "c < 64" "d < 64" and lo: "a = 0 \<longrightarrow> 16 \<le> b" and hi: "a = 4 \<longrightarrow> b \<le> 15"
  shows "rune_bytes (a * 262144 + b * 4096 + c * 64 + d) = [0xF0 + a, 0x80 + b, 0x80 + c, 0x80 + d]"
proof -
  let ?r = "a * 262144 + b * 4096 + c * 64 + d"
  have e1: "?r = ((a * 64 + b) * 64 + c) * 64 + d" by simp
  have e2: "?r = (a * 64 + b) * 4096 + (c * 64 + d)" by simp
  have e3: "?r = a * 262144 + (b * 4096 + c * 64 + d)" by simp
  have cd: "c * 64 + d < 4096" using h by simp
  have bcd: "b * 4096 + c * 64 + d < 262144" using h by simp
  have d1: "?r div 262144 = a"
    by (subst e3) (simp only: div_mult_self3 div_less bcd add_0_right zero_neq_numeral not_False_eq_True)
  have d2: "?r div 4096 = a * 64 + b"
    by (subst e2) (simp only: div_mult_self3 div_less cd add_0_right zero_neq_numeral not_False_eq_True)
  have d2': "(a * 64 + b) mod 64 = b" by (simp only: mod_mult_self3 mod_less h)
  have d3: "?r div 64 = (a * 64 + b) * 64 + c"
    by (subst e1) (simp only: div_mult_self3 div_less h add_0_right zero_neq_numeral not_False_eq_True)
  have d3': "((a * 64 + b) * 64 + c) mod 64 = c" by (simp only: mod_mult_self3 mod_less h)
  have d4: "?r mod 64 = d" by (subst e1) (simp only: mod_mult_self3 mod_less h)
  have g1: "\<not> ?r \<le> 0xFFFF"
  proof (cases "a = 0")
    case True
    then have "16 * 4096 \<le> b * 4096" using lo by simp
    then show ?thesis by simp
  next
    case False
    then have "1 * 262144 \<le> a * 262144" by simp
    then show ?thesis by simp
  qed
  have g2: "\<not> ?r > 0x10FFFF"
  proof (cases "a = 4")
    case True
    then have "b * 4096 \<le> 15 * 4096" using hi by simp
    then show ?thesis using True cd by simp
  next
    case False
    then have "a * 262144 \<le> 3 * 262144" using h by simp
    then show ?thesis using bcd by simp
  qed
  have g0: "\<not> ?r \<le> 0x7F" "\<not> ?r \<le> 0x7FF" "\<not> (0xD800 \<le> ?r \<and> ?r \<le> 0xDFFF)" using g1 by simp_all
  show ?thesis
    unfolding rune_bytes_def using g0 g1 g2
    by (simp only: if_False if_True d1 d2 d2' d3 d3' d4 simp_thms)
qed

lemma offset_ex: "(k::nat) \<le> x \<Longrightarrow> \<exists>a. x = k + a"
  by (rule exI[of _ "x - k"]) simp

lemma decode_size2:
  assumes sz: "first_size s0 = 2" and ok: "DecodeRune (s0 # s) \<noteq> (RuneError, 1)"
  shows "rune_bytes (fst (DecodeRune (s0 # s))) = take 2 (s0 # s) \<and> snd (DecodeRune (s0 # s)) = 2"
proof -
  from sz have r0: "0xC2 \<le> s0" "s0 < 0xE0" by (simp_all add: first_size_def split: if_splits)
  then have acc: "accept_lo s0 = 0x80" "accept_hi s0 = 0xBF" by (simp_all add: accept_lo_def accept_hi_def)
  from ok sz have ne: "s \<noteq> []" by (cases s) (simp_all add: Let_def DecodeRune.simps)
  from ok sz ne have r1: "0x80 \<le> s ! 0" "s ! 0 \<le> 0xBF"
    by (auto simp add: Let_def acc DecodeRune.simps split: if_splits)
  from r0 obtain a where a: "s0 = 0xC0 + a" using offset_ex[of "0xC0" s0] by auto
  from r1 obtain b where b: "s ! 0 = 0x80 + b" using offset_ex[of "0x80" "s ! 0"] by auto
  from a r0 have a': "2 \<le> a" "a < 32" by simp_all
  from b r1 have b': "b < 64" by simp
  have d: "DecodeRune (s0 # s) = ((s0 mod 32) * 64 + (s ! 0) mod 64, 2)"
    using sz ne r1 by (cases s) (simp_all add: Let_def acc DecodeRune.simps)
  have "rune_bytes ((s0 mod 32) * 64 + (s ! 0) mod 64) = [s0, s ! 0]"
    unfolding a b using a' b' by (simp only: m32 m64 rb2)
  moreover have "take 2 (s0 # s) = [s0, s ! 0]" using ne by (cases s) simp_all
  ultimately show ?thesis by (simp add: d)
qed


lemma cont_byte_ex: "cont_byte x \<Longrightarrow> \<exists>c. x = 0x80 + c \<and> c < 64"
  unfolding cont_byte_def by (rule exI[of _ "x - 0x80"]) arith

lemma decode_size3:
  assumes sz: "first_size s0 = 3" and ok: "DecodeRune (s0 # s) \<noteq> (RuneError, 1)"
  shows "rune_bytes (fst (DecodeRune (s0 # s))) = take 3 (s0 # s) \<and> snd (DecodeRune (s0 # s)) = 3"
proof -
  from sz have r0: "0xE0 \<le> s0" "s0 < 0xF0" by (simp_all add: first_size_def split: if_splits)
  from ok sz have len: "2 \<le> length s"
    by (auto simp add: Let_def DecodeRune.simps split: if_splits)
  from ok sz len have r1: "accept_lo s0 \<le> s ! 0" "s ! 0 \<le> accept_hi s0"
    by (auto simp add: Let_def DecodeRune.simps split: if_splits)
  from ok sz len r1 have r2: "cont_byte (s ! 1)"
    by (auto simp add: Let_def DecodeRune.simps split: if_splits)
  from r0 obtain a where a: "s0 = 0xE0 + a" using offset_ex[of "0xE0" s0] by auto
  from a r0 have a': "a < 16" by simp
  have "0x80 \<le> s ! 0" using r1(1) by (simp add: accept_lo_def split: if_splits)
  then obtain b where b: "s ! 0 = 0x80 + b" using offset_ex[of "0x80" "s ! 0"] by auto
  have "s ! 0 \<le> 0xBF" using r1(2) by (simp add: accept_hi_def split: if_splits)
  with b have b': "b < 64" by simp
  from r2 obtain c where c: "s ! 1 = 0x80 + c" "c < 64" using cont_byte_ex by blast
  have lo: "a = 0 \<longrightarrow> 32 \<le> b" using r1(1) a b by (auto simp add: accept_lo_def split: if_splits)
  have sg: "a = 13 \<longrightarrow> b \<le> 31" using r1(2) a b by (auto simp add: accept_hi_def split: if_splits)
  have d: "DecodeRune (s0 # s) = ((s0 mod 16) * 4096 + (s ! 0 mod 64) * 64 + s ! 1 mod 64, 3)"
    using sz len r1 r2 by (simp add: Let_def DecodeRune.simps)
  have "rune_bytes ((s0 mod 16) * 4096 + (s ! 0 mod 64) * 64 + s ! 1 mod 64) = [s0, s ! 0, s ! 1]"
    unfolding a b c using a' b' c(2) lo sg by (simp only: m16 m64 rb3)
  moreover have "take 3 (s0 # s) = [s0, s ! 0, s ! 1]"
    using len by (cases s; cases "tl s") (simp_all add: numeral_3_eq_3)
  ultimately show ?thesis by (simp only: d fst_conv snd_conv simp_thms)
qed

lemma decode_size4:
  assumes sz: "first_size s0 = 4" and ok: "DecodeRune (s0 # s) \<noteq> (RuneError, 1)"
  shows "rune_bytes (fst (DecodeRune (s0 # s))) = take 4 (s0 # s) \<and> snd (DecodeRune (s0 # s)) = 4"
proof -
  from sz have r0: "0xF0 \<le> s0" "s0 < 0xF5" by (simp_all add: first_size_def split: if_splits)
  from ok sz have len: "3 \<le> length s"
    by (auto simp add: Let_def DecodeRune.simps split: if_splits)
  from ok sz len have r1: "accept_lo s0 \<le> s ! 0" "s ! 0 \<le> accept_hi s0"
    by (auto simp add: Let_def DecodeRune.simps split: if_splits)
  from ok sz len r1 have r2: "cont_byte (s ! 1)"
    by (auto simp add: Let_def DecodeRune.simps split: if_splits)
  from ok sz len r1 r2 have r3: "cont_byte (s ! 2)"
    by (auto simp add: Let_def DecodeRune.simps split: if_splits)
  from r0 obtain a where a: "s0 = 0xF0 + a" using offset_ex[of "0xF0" s0] by auto
  from a r0 have a': "a < 5" "a < 8" by simp_all
  have "0x80 \<le> s ! 0" using r1(1) by (simp add: accept_lo_def split: if_splits)
  then obtain b where b: "s ! 0 = 0x80 + b" using offset_ex[of "0x80" "s ! 0"] by auto
  have "s ! 0 \<le> 0xBF" using r1(2) by (simp add: accept_hi_def split: if_splits)
  with b have b': "b < 64" by simp
  from r2 obtain c where c: "s ! 1 = 0x80 + c" "c < 64" using cont_byte_ex by blast
  from r3 obtain e where e: "s ! 2 = 0x80 + e" "e < 64" using cont_byte_ex by blast
  have lo: "a = 0 \<longrightarrow> 16 \<le> b" using r1(1) a b by (auto simp add: accept_lo_def split: if_splits)
  have hi: "a = 4 \<longrightarrow> b \<le> 15" using r1(2) a b by (auto simp add: accept_hi_def split: if_splits)
  have d: "DecodeRune (s0 # s) =
      ((s0 mod 8) * 262144 + (s ! 0 mod 64) * 4096 + (s ! 1 mod 64) * 64 + s ! 2 mod 64, 4)"
    using sz len r1 r2 r3 by (simp add: Let_def DecodeRune.simps)
  have "rune_bytes ((s0 mod 8) * 262144 + (s ! 0 mod 64) * 4096 + (s ! 1 mod 64) * 64 + s ! 2 mod 64)
      = [s0, s ! 0, s ! 1, s ! 2]"
    unfolding a b c e using a' b' c(2) e(2) lo hi by (simp only: m8 m64 rb4)
  moreover have "take 4 (s0 # s) = [s0, s ! 0, s ! 1, s ! 2]"
    using len by (cases s; cases "tl s"; cases "tl (tl s)") (simp_all add: numeral_eq_Suc)
  ultimately show ?thesis by (simp only: d fst_conv snd_conv simp_thms)
qed

lemma decode_size1:
  assumes sz: "first_size s0 = 1"
  shows "rune_bytes (fst (DecodeRune (s0 # s))) = take 1 (s0 # s) \<and> snd (DecodeRune (s0 # s)) = 1"
proof -
  from sz have "s0 < 0x80" by (simp add: first_size_def split: if_splits)
  then have "rune_bytes s0 = [s0]" by (simp add: rb1)
  moreover have "DecodeRune (s0 # s) = (s0, 1)" using sz by (simp add: DecodeRune.simps)
  ultimately show ?thesis by simp
qed

lemma decode_size0:
  assumes sz: "first_size s0 = 0"
  shows "DecodeRune (s0 # s) = (RuneError, 1)"
  using sz by (simp add: DecodeRune.simps)

lemma DecodeRune_valid:
  assumes ok: "\<not> (fst (DecodeRune (s0 # s)) = RuneError \<and> snd (DecodeRune (s0 # s)) = 1)"
  shows "rune_bytes (fst (DecodeRune (s0 # s))) = take (snd (DecodeRune (s0 # s))) (s0 # s)
         \<and> 1 \<le> snd (DecodeRune (s0 # s))"
proof -
  from ok have ne: "DecodeRune (s0 # s) \<noteq> (RuneError, 1)" by auto
  have "first_size s0 = 0 \<or> first_size s0 = 1 \<or> first_size s0 = 2 \<or> first_size s0 = 3
    \<or> first_size s0 = 4"
    by (simp add: first_size_def)
  then consider "first_size s0 = 0" | "first_size s0 = 1" | "first_size s0 = 2"
    | "first_size s0 = 3" | "first_size s0 = 4"
    by auto
  then show ?thesis
  proof cases
    case 1 with ne decode_size0 show ?thesis by blast
  next
    case 2 from decode_size1[OF 2, of s] show ?thesis by simp
  next
    case 3 from decode_size2[OF 3 ne] show ?thesis by simp
  next
    case 4 from decode_size3[OF 4 ne] show ?thesis by simp
  next
    case 5 from decode_size4[OF 5 ne] show ?thesis by simp
  qed
qed

lemma valid_bytes_roundtrip:
  "valid_bytes bs \<Longrightarrow> concat (map rune_bytes (decode_bytes bs)) = bs"
proof (induction bs rule: decode_bytes.induct)
  case 1
  then show ?case by simp
next
  case (2 s0 s)
  let ?w = "snd (DecodeRune (s0 # s))"
  from "2.prems" have ok: "\<not> (fst (DecodeRune (s0 # s)) = RuneError \<and> ?w = 1)"
    and rest: "valid_bytes (drop (?w - 1) s)" by simp_all
  from DecodeRune_valid[OF ok] have
    rb: "rune_bytes (fst (DecodeRune (s0 # s))) = take ?w (s0 # s)" and w: "1 \<le> ?w" by simp_all
  from w have dr: "drop (?w - 1) s = drop ?w (s0 # s)" by (cases ?w) simp_all
  have "concat (map rune_bytes (decode_bytes (s0 # s)))
      = take ?w (s0 # s) @ concat (map rune_bytes (decode_bytes (drop (?w - 1) s)))"
    by (simp add: rb)
  also have "\<dots> = take ?w (s0 # s) @ drop (?w - 1) s" using "2.IH"[OF rest] by simp
  also have "\<dots> = s0 # s" unfolding dr by (rule append_take_drop_id)
  finally show ?case .
qed

lemma ValidString_roundtrip:
  "ValidString text \<Longrightarrow> runes_to_string (string_to_runes text) = text"
proof -
  assume "ValidString text"
  then have "concat (map rune_bytes (decode_bytes (map of_char text))) = map of_char text"
    unfolding ValidString_def by (rule valid_bytes_roundtrip)
  then have "map char_of (concat (map rune_bytes (decode_bytes (map of_char text))))
     = map char_of (map of_char text :: nat list)" by simp
  then show ?thesis
    by (simp add: runes_to_string_def string_to_runes_def map_concat comp_def)
qed

subsection \<open>The loop computes the cut at the boundaries\<close>

lemma code_boundary_spec:
  assumes lt: "i < length rs"
  shows "code_boundary T rs i = spec_boundary T rs i"
proof -
  have sp1: "(i + 1 \<ge> length rs) = (i + 1 = length rs)" using lt by linarith
  have sp2: "(i + 1 < length rs) = (i + 1 \<noteq> length rs)" using lt by linarith
  have i2: "(i < 2) = (i = 0 \<or> i = 1)" by linarith
  have i0: "(i > 0) = (1 \<le> i)" by linarith
  show ?thesis
    unfolding code_boundary_def spec_boundary_def spec_candidate_def abbreviation_guard_def
      decimal_guard_def isEndOfSentence_def Let_def sp1 sp2 i2 i0
    by (cases "i = 0") auto
qed

lemma rune_bytes_nonempty: "rune_bytes r \<noteq> []"
  by (simp add: rune_bytes_def)

lemma runes_to_string_empty [simp]: "runes_to_string rs = [] \<longleftrightarrow> rs = []"
  by (cases rs) (simp_all add: runes_to_string_def rune_bytes_nonempty)

lemma split_loop_segments:
  "start \<le> i \<Longrightarrow> i \<le> length rs \<Longrightarrow>
   finish (split_loop T rs i ss (runes_to_string (take (i - start) (drop start rs))))
     = ss @ map runes_to_string (segments rs start (filter (spec_boundary T rs) [i..<length rs]))"
proof (induction "length rs - i" arbitrary: i ss start)
  case 0
  then have i: "i = length rs" by simp
  show ?case using 0 by (simp add: i split_loop_done finish_def)
next
  case (Suc n)
  then have lt: "i < length rs" and n: "n = length rs - Suc i" by simp_all
  have up: "[i..<length rs] = i # [Suc i..<length rs]" using lt by (simp add: upt_conv_Cons)
  have "i - start < length (drop start rs)" using lt Suc.prems by simp
  then have "take (Suc (i - start)) (drop start rs)
      = take (i - start) (drop start rs) @ [drop start rs ! (i - start)]"
    by (rule take_Suc_conv_app_nth)
  moreover have "drop start rs ! (i - start) = rs ! i" using lt Suc.prems by simp
  moreover have "Suc (i - start) = Suc i - start" using Suc.prems by simp
  ultimately have tk: "take (Suc i - start) (drop start rs)
      = take (i - start) (drop start rs) @ [rs ! i]" by simp
  have wr: "WriteRune (runes_to_string (take (i - start) (drop start rs))) (rs ! i)
      = runes_to_string (take (Suc i - start) (drop start rs))"
    by (simp add: WriteRune_runes tk)
  show ?case
  proof (cases "spec_boundary T rs i")
    case True
    have "finish (split_loop T rs (Suc i)
            (ss @ [runes_to_string (take (Suc i - start) (drop start rs))])
            (runes_to_string (take (Suc i - Suc i) (drop (Suc i) rs))))
        = (ss @ [runes_to_string (take (Suc i - start) (drop start rs))]) @
          map runes_to_string (segments rs (Suc i) (filter (spec_boundary T rs) [Suc i..<length rs]))"
      using lt by (intro Suc.hyps(1)[OF n]) simp_all
    then show ?thesis
      using True lt by (simp add: split_loop_step code_boundary_spec up wr)
  next
    case False
    have "finish (split_loop T rs (Suc i) ss
            (runes_to_string (take (Suc i - start) (drop start rs))))
        = ss @ map runes_to_string (segments rs start (filter (spec_boundary T rs) [Suc i..<length rs]))"
      using lt Suc.prems by (intro Suc.hyps(1)[OF n]) simp_all
    then show ?thesis
      using False lt by (simp add: split_loop_step code_boundary_spec up wr)
  qed
qed

lemma split_refines:
  "splitIntoSentences T text = map runes_to_string (spec_split T (string_to_runes text))"
  using split_loop_segments[of 0 0 "string_to_runes text" T "[]"]
  by (simp add: splitIntoSentences_def finish_def spec_split_def)

lemma string_to_runes_empty [simp]: "string_to_runes text = [] \<longleftrightarrow> text = []"
  by (cases "text") (simp_all add: string_to_runes_def)

lemma split_empty_iff: "splitIntoSentences T text = [] \<longleftrightarrow> text = []"
proof
  assume "splitIntoSentences T text = []"
  then have "concat (splitIntoSentences T text) = []" by simp
  then show "text = []" by (simp add: concat_split)
next
  assume "text = []"
  then show "splitIntoSentences T text = []"
    by (simp add: splitIntoSentences_def string_to_runes_def split_loop_done)
qed

lemma single_sentence_split:
  assumes ne: "rs \<noteq> []" and nb: "filter (spec_boundary T rs) [0..<length rs - 1] = []"
  shows "spec_split T rs = [rs]"
proof -
  from ne have n: "length rs = Suc (length rs - 1)" by (cases rs) simp_all
  have "[0..<length rs] = [0..<length rs - 1] @ [length rs - 1]"
    by (subst n) simp
  then have f: "filter (spec_boundary T rs) [0..<length rs]
      = (if spec_boundary T rs (length rs - 1) then [length rs - 1] else [])"
    using nb by simp
  show ?thesis
  proof (cases "spec_boundary T rs (length rs - 1)")
    case True
    with f n ne show ?thesis by (simp add: spec_split_def)
  next
    case False
    with f ne show ?thesis by (simp add: spec_split_def)
  qed
qed

section \<open>Theorems about splitIntoSentences\<close>



text \<open>
  C7. \<^verbatim>\<open>splitIntoSentences("Dr. Smith is here.")\<close> is \<^verbatim>\<open>["Dr.", " Smith is here."]\<close>:
  the rune before the first dot is the lowercase \<open>r\<close>, so the abbreviation guard does not
  hold at that dot and the split after \<^verbatim>\<open>"Dr."\<close> is made.
\<close>

theorem split_Dr_Smith:
  "splitIntoSentences T ''Dr. Smith is here.'' = [''Dr.'', '' Smith is here.'']
   \<and> string_to_runes ''Dr. Smith is here.'' ! 1 = of_char CHR ''r''
   \<and> \<not> IsUpper T (of_char CHR ''r'')
   \<and> \<not> abbreviation_guard T (string_to_runes ''Dr. Smith is here.'') 2"
  by (simp add: split_eval abbreviation_guard_def)

theorem split_Dr_Smith_witness:
  "splitIntoSentences empty_tables ''Dr. Smith is here.'' = [''Dr.'', '' Smith is here.'']"
  using split_Dr_Smith[of empty_tables] by simp

text \<open>
  C6, amended. For every input string that is valid UTF-8 and is a single complete
  sentence (it ends in \<open>.\<close>, \<open>!\<close> or \<open>?\<close> and has no earlier boundary),
  \<^verbatim>\<open>splitIntoSentences\<close> returns exactly one element, equal to the input.
\<close>

theorem single_sentence_unsplit:
  assumes "ValidString text" and "single_complete_sentence T text"
  shows "splitIntoSentences T text = [text]"
proof -
  from assms(2) have ne: "string_to_runes text \<noteq> []"
    and nb: "filter (spec_boundary T (string_to_runes text))
           [0..<length (string_to_runes text) - 1] = []"
    by (simp_all add: single_complete_sentence_def ends_in_final_punctuation_def)
  from single_sentence_split[OF ne nb] have "splitIntoSentences T text
      = [runes_to_string (string_to_runes text)]"
    by (simp add: split_refines)
  with assms(1) show ?thesis by (simp add: ValidString_roundtrip)
qed

theorem single_sentence_unsplit_witness:
  "ValidString [CHR ''C'', CHR ''a'', CHR ''f'', CHR 0xC3, CHR 0xA9, CHR ''!'']
   \<and> single_complete_sentence empty_tables [CHR ''C'', CHR ''a'', CHR ''f'', CHR 0xC3, CHR 0xA9, CHR ''!'']
   \<and> splitIntoSentences empty_tables [CHR ''C'', CHR ''a'', CHR ''f'', CHR 0xC3, CHR 0xA9, CHR ''!'']
       = [[CHR ''C'', CHR ''a'', CHR ''f'', CHR 0xC3, CHR 0xA9, CHR ''!'']]"
proof -
  have v: "ValidString [CHR ''C'', CHR ''a'', CHR ''f'', CHR 0xC3, CHR 0xA9, CHR ''!'']"
    by (simp add: ValidString_def split_eval)
  have s: "single_complete_sentence empty_tables
      [CHR ''C'', CHR ''a'', CHR ''f'', CHR 0xC3, CHR 0xA9, CHR ''!'']"
    by (simp add: split_eval single_complete_sentence_def ends_in_final_punctuation_def
      spec_boundary_def spec_candidate_def upt_rec_numeral)
  from single_sentence_unsplit[OF v s] v s show ?thesis by simp
qed

text \<open>
  Without valid UTF-8 the element differs from the input: \<^verbatim>\<open>[]rune(text)\<close> turns the
  byte \<open>0xFF\<close> into U+FFFD, which \<^verbatim>\<open>WriteRune\<close> writes as three bytes.
\<close>

theorem single_sentence_counterexample:
  "single_complete_sentence empty_tables [CHR 0xFF, CHR ''!'']
   \<and> splitIntoSentences empty_tables [CHR 0xFF, CHR ''!''] \<noteq> [[CHR 0xFF, CHR ''!'']]"
  by (simp add: split_eval single_complete_sentence_def ends_in_final_punctuation_def
      spec_boundary_def spec_candidate_def)

text \<open>
  C10, amended. For every input string the concatenation of the elements, in order, is
  the encoding of the runes of the input; for every input string that is valid UTF-8 it
  is the input itself. The result is empty exactly when the input is empty.
\<close>

theorem concat_split_valid:
  "concat (splitIntoSentences T s) = runes_to_string (string_to_runes s)
   \<and> (ValidString s \<longrightarrow> concat (splitIntoSentences T s) = s)
   \<and> (splitIntoSentences T s = [] \<longleftrightarrow> s = [])"
  by (simp add: concat_split ValidString_roundtrip split_empty_iff)

theorem concat_split_valid_witness:
  "ValidString [CHR ''a'', CHR 0xC3, CHR 0xA9, CHR ''.'', CHR '' '', CHR ''b'']
   \<and> concat (splitIntoSentences empty_tables [CHR ''a'', CHR 0xC3, CHR 0xA9, CHR ''.'', CHR '' '', CHR ''b''])
       = [CHR ''a'', CHR 0xC3, CHR 0xA9, CHR ''.'', CHR '' '', CHR ''b'']
   \<and> splitIntoSentences empty_tables [CHR ''a'', CHR 0xC3, CHR 0xA9, CHR ''.'', CHR '' '', CHR ''b''] \<noteq> []"
proof -
  have v: "ValidString [CHR ''a'', CHR 0xC3, CHR 0xA9, CHR ''.'', CHR '' '', CHR ''b'']"
    by (simp add: ValidString_def split_eval)
  with concat_split_valid[of empty_tables "[CHR ''a'', CHR 0xC3, CHR 0xA9, CHR ''.'', CHR '' '', CHR ''b'']"]
  show ?thesis by blast
qed

text \<open>
  On a string that is not valid UTF-8 the concatenation is not the input: the byte
  \<open>0xFF\<close> comes back as the three bytes of U+FFFD.
\<close>

theorem concat_counterexample:
  "concat (splitIntoSentences empty_tables [CHR 0xFF]) \<noteq> [CHR 0xFF]"
  by (simp add: split_eval)

section \<open>Properties of the streams\<close>

subsection \<open>Sequencing\<close>

lemma and_then_Inr [simp]: "and_then (Inr x) f = f x"
  by (simp add: and_then_def)

lemma and_then_Inl [simp]: "and_then (Inl p) f = Inl p"
  by (simp add: and_then_def)

lemma and_then_eq_Inr:
  "and_then m f = Inr y \<longleftrightarrow> (\<exists>x. m = Inr x \<and> f x = Inr y)"
  by (cases m) simp_all

lemma and_then_eq_Inl:
  "and_then m f = Inl p \<longleftrightarrow> (m = Inl p \<or> (\<exists>x. m = Inr x \<and> f x = Inl p))"
  by (cases m) simp_all

subsection \<open>The STT session keeps its invariant\<close>

lemma stt_new_inv: "stt_inv (stt_new d)"
  by (simp add: stt_inv_def stt_new_def make_chan_def)

lemma Close_inv:
  assumes "stt_inv s"
  shows "\<exists>s'. streamWriter_Close s = Inr s' \<and> stt_inv s' \<and> w_closed s'
           \<and> stt_ctx_done s' = stt_ctx_done s"
  using assms
  by (auto simp add: streamWriter_Close_def stt_inv_def close_chan_def Let_def)

lemma select_inv:
  assumes "stt_inv s" and "callbackHandler_select p s ev = Inr (s', r)"
  shows "stt_inv s' \<and> w_closed s' = w_closed s \<and> stt_ctx_done s' = stt_ctx_done s"
  using assms
  by (auto simp add: callbackHandler_select_def stt_inv_def select_send_def send_ready_def
      chan_send_def and_then_eq_Inr split: select_case.splits if_splits)

lemma select_panic:
  assumes "callbackHandler_select p s ev = Inl q"
  shows "q = SendOnClosedChannel"
  using assms
  by (auto simp add: callbackHandler_select_def chan_send_def and_then_eq_Inl
      split: select_case.splits if_splits)

lemma stt_step_inv:
  assumes "stt_inv s" and "stt_step cw s e = Inr s'"
  shows "stt_inv s' \<and> (w_closed s' \<longleftrightarrow> w_closed s \<or> e = CallerClose \<or> (\<exists>p. e = Watcher p \<and> stt_ctx_done s))
         \<and> (stt_ctx_done s' \<longleftrightarrow> stt_ctx_done s \<or> e = CtxCancel)"
proof (cases e)
  case (CallerWrite p)
  with assms show ?thesis
    by (auto simp add: streamWriter_Write_def stt_inv_def split: if_splits)
next
  case CallerClose
  with assms Close_inv[OF assms(1)] show ?thesis by auto
next
  case CtxCancel
  with assms show ?thesis by (auto simp add: stt_inv_def)
next
  case (Watcher p)
  with assms Close_inv[OF assms(1)] show ?thesis
    by (auto simp add: watcher_step_def stt_inv_def split: if_splits)
next
  case (OnMessage mr p)
  with assms select_inv[OF assms(1)] show ?thesis
    by (cases mr) (auto simp add: drop_result_def callbackHandler_Message_def and_then_eq_Inr)
next
  case (OnSpeechStarted p)
  with assms select_inv[OF assms(1)] show ?thesis
    by (auto simp add: drop_result_def callbackHandler_SpeechStarted_def and_then_eq_Inr)
next
  case (OnUtteranceEnd p)
  with assms select_inv[OF assms(1)] show ?thesis
    by (auto simp add: drop_result_def callbackHandler_UtteranceEnd_def and_then_eq_Inr)
next
  case (OnError er p)
  with assms select_inv[OF assms(1)] show ?thesis
    by (cases er) (auto simp add: drop_result_def callbackHandler_Error_def and_then_eq_Inr)
next
  case ConsumerReceive
  with assms show ?thesis
    by (auto simp add: stt_receive_def chan_recv_def stt_inv_def split: list.splits)
qed

lemma stt_step_panic:
  assumes "stt_inv s" and "stt_step cw s e = Inl q"
  shows "q = SendOnClosedChannel"
proof (cases e)
  case CallerClose
  with assms Close_inv[OF assms(1)] show ?thesis by auto
next
  case (Watcher p)
  with assms Close_inv[OF assms(1)] show ?thesis
    by (auto simp add: watcher_step_def split: if_splits)
next
  case (OnMessage mr p)
  with assms select_panic show ?thesis
    by (cases mr) (auto simp add: drop_result_def callbackHandler_Message_def and_then_eq_Inl)
next
  case (OnSpeechStarted p)
  with assms select_panic show ?thesis
    by (auto simp add: drop_result_def callbackHandler_SpeechStarted_def and_then_eq_Inl)
next
  case (OnUtteranceEnd p)
  with assms select_panic show ?thesis
    by (auto simp add: drop_result_def callbackHandler_UtteranceEnd_def and_then_eq_Inl)
next
  case (OnError er p)
  with assms select_panic show ?thesis
    by (cases er) (auto simp add: drop_result_def callbackHandler_Error_def and_then_eq_Inl)
qed (use assms in auto)

lemma stt_run_inv:
  "stt_inv s \<Longrightarrow> stt_run cw s es = Inr s' \<Longrightarrow>
   stt_inv s' \<and> (w_closed s' \<longleftrightarrow> w_closed s \<or> close_triggered (stt_ctx_done s) es)"
proof (induction es arbitrary: s)
  case Nil
  then show ?case by simp
next
  case (Cons e es)
  from Cons.prems(2) obtain s1 where s1: "stt_step cw s e = Inr s1" and r: "stt_run cw s1 es = Inr s'"
    by (auto simp add: and_then_eq_Inr)
  from stt_step_inv[OF Cons.prems(1) s1] have i1: "stt_inv s1"
    and c1: "w_closed s1 \<longleftrightarrow> w_closed s \<or> e = CallerClose \<or> (\<exists>p. e = Watcher p \<and> stt_ctx_done s)"
    and d1: "stt_ctx_done s1 \<longleftrightarrow> stt_ctx_done s \<or> e = CtxCancel" by simp_all
  from Cons.IH[OF i1 r] have i': "stt_inv s'"
    and c': "w_closed s' \<longleftrightarrow> w_closed s1 \<or> close_triggered (stt_ctx_done s1) es" by simp_all
  have "w_closed s' \<longleftrightarrow> w_closed s \<or> close_triggered (stt_ctx_done s) (e # es)"
    unfolding c' c1 d1 by (cases e) auto
  with i' show ?case by simp
qed

lemma stt_run_panic:
  "stt_inv s \<Longrightarrow> stt_run cw s es = Inl q \<Longrightarrow> q = SendOnClosedChannel"
proof (induction es arbitrary: s)
  case Nil
  then show ?case by simp
next
  case (Cons e es)
  from Cons.prems(2) consider "stt_step cw s e = Inl q"
    | s1 where "stt_step cw s e = Inr s1" "stt_run cw s1 es = Inl q"
    by (auto simp add: and_then_eq_Inl)
  then show ?case
  proof cases
    case 1
    with Cons.prems(1) show ?thesis by (rule stt_step_panic)
  next
    case 2
    from stt_step_inv[OF Cons.prems(1) 2(1)] have "stt_inv s1" by simp
    from Cons.IH[OF this 2(2)] show ?thesis .
  qed
qed

subsection \<open>One step of a TTS stream\<close>

lemma tts_new_inv: "p \<noteq> Exited \<Longrightarrow> before_flush p \<Longrightarrow> tts_inv (tts_new d p)"
  by (simp add: tts_inv_def chan_inv_def flush_inv_def tts_new_def make_chan_def)

lemma chan_inv_upd [simp]:
  "chan_inv (s\<lparr>spoken := x\<rparr>) = chan_inv s"
  "chan_inv (s\<lparr>flushes := n\<rparr>) = chan_inv s"
  "chan_inv (s\<lparr>textBuffer := b\<rparr>) = chan_inv s"
  by (simp_all add: chan_inv_def)

lemma chan_inv_pc:
  "go_pc s \<noteq> Exited \<Longrightarrow> p \<noteq> Exited \<Longrightarrow> chan_inv (s\<lparr>go_pc := p\<rparr>) = chan_inv s"
  by (simp add: chan_inv_def)

lemma delivered_upd [simp]:
  "delivered (s\<lparr>spoken := x\<rparr>) = delivered s"
  "delivered (s\<lparr>flushes := n\<rparr>) = delivered s"
  "delivered (s\<lparr>textBuffer := b\<rparr>) = delivered s"
  "delivered (s\<lparr>go_pc := p\<rparr>) = delivered s"
  "delivered (s\<lparr>tts_ctx_done := d\<rparr>) = delivered s"
  by (simp_all add: delivered_def)

lemma grows_refl [simp]: "grows_by_error s s"
  by (simp add: grows_by_error_def)

lemma grows_upd [simp]:
  "grows_by_error s (s'\<lparr>go_pc := p\<rparr>) = grows_by_error s s'"
  "grows_by_error s (s'\<lparr>spoken := x\<rparr>) = grows_by_error s s'"
  "grows_by_error s (s'\<lparr>flushes := n\<rparr>) = grows_by_error s s'"
  "grows_by_error s (s'\<lparr>textBuffer := b\<rparr>) = grows_by_error s s'"
  "grows_by_error (s\<lparr>spoken := x\<rparr>) s' = grows_by_error s s'"
  "grows_by_error (s\<lparr>flushes := n\<rparr>) s' = grows_by_error s s'"
  "grows_by_error (s\<lparr>textBuffer := b\<rparr>) s' = grows_by_error s s'"
  by (simp_all add: grows_by_error_def)

lemma sendChunk_cases:
  assumes "chan_closed (chunkCh s) = h_closed s"
  shows "sendChunk p s c = Inr s
       \<or> (\<not> h_closed s \<and> length (chan_buf (chunkCh s)) < chan_cap (chunkCh s)
           \<and> (\<not> tts_ctx_done s \<or> p)
           \<and> sendChunk p s c = Inr (s\<lparr>chunkCh := (chunkCh s)\<lparr>chan_buf := chan_buf (chunkCh s) @ [c]\<rparr>\<rparr>))"
  using assms
  by (auto simp add: sendChunk_def select_send_def send_ready_def chan_send_def
      split: select_case.splits)

lemma sendChunk_inv:
  assumes "chan_inv s"
  shows "\<exists>s'. sendChunk p s c = Inr s' \<and> chan_inv s' \<and> go_pc s' = go_pc s
      \<and> flushes s' = flushes s \<and> tts_ctx_done s' = tts_ctx_done s
      \<and> (delivered s' = delivered s \<or> delivered s' = delivered s @ [c])"
proof -
  from assms have "chan_closed (chunkCh s) = h_closed s" by (simp add: chan_inv_def)
  from sendChunk_cases[OF this, of p c] show ?thesis
  proof
    assume "sendChunk p s c = Inr s"
    with assms show ?thesis by simp
  next
    let ?s' = "s\<lparr>chunkCh := (chunkCh s)\<lparr>chan_buf := chan_buf (chunkCh s) @ [c]\<rparr>\<rparr>"
    assume h: "\<not> h_closed s \<and> length (chan_buf (chunkCh s)) < chan_cap (chunkCh s)
           \<and> (\<not> tts_ctx_done s \<or> p) \<and> sendChunk p s c = Inr ?s'"
    have "chan_inv ?s'" using assms h by (simp add: chan_inv_def)
    moreover have "delivered ?s' = delivered s @ [c]" by (simp add: delivered_def)
    ultimately show ?thesis using h by simp
  qed
qed

lemma send_error_inv:
  assumes "chan_inv s"
  shows "\<exists>s'. sendChunk p s (error_chunk e) = Inr s' \<and> chan_inv s' \<and> go_pc s' = go_pc s
      \<and> flushes s' = flushes s \<and> tts_ctx_done s' = tts_ctx_done s \<and> grows_by_error s s'"
  using sendChunk_inv[OF assms, of p "error_chunk e"] by (auto simp add: grows_by_error_def)

lemma send_error_and_return_inv:
  assumes "chan_inv s" and "go_pc s \<noteq> Exited"
  shows "\<exists>s'. send_error_and_return p s e = Inr s' \<and> chan_inv s' \<and> go_pc s' = AtReturn
      \<and> flushes s' = flushes s \<and> tts_ctx_done s' = tts_ctx_done s \<and> grows_by_error s s'"
proof -
  from send_error_inv[OF assms(1), of p e] obtain s1 where
    s1: "sendChunk p s (error_chunk e) = Inr s1" "chan_inv s1" "go_pc s1 = go_pc s"
      "flushes s1 = flushes s" "tts_ctx_done s1 = tts_ctx_done s" "grows_by_error s s1"
    by blast
  have "chan_inv (s1\<lparr>go_pc := AtReturn\<rparr>)" using s1 assms(2) by (simp add: chan_inv_pc)
  then show ?thesis using s1 by (simp add: send_error_and_return_def)
qed

lemma deferred_close_inv:
  assumes "chan_inv s" and "go_pc s \<noteq> Exited"
  shows "\<exists>s'. deferred_close s = Inr s' \<and> chan_inv s' \<and> go_pc s' = Exited
      \<and> flushes s' = flushes s \<and> tts_ctx_done s' = tts_ctx_done s \<and> delivered s' = delivered s"
  using assms
  by (auto simp add: deferred_close_def chan_inv_def close_chan_def Let_def delivered_def)

lemma stream_step_inv:
  assumes inv: "tts_inv s" and pcs: "stream_pcs (go_pc s)"
  shows "\<exists>s'. stream_step txt inp s = Inr s' \<and> go_ok stream_pcs s s'"
proof -
  from inv have ci: "chan_inv s" and fi: "flush_inv s" by (simp_all add: tts_inv_def)
  from pcs consider "go_pc s = AtSpeak" | "go_pc s = AtFlush" | "go_pc s = AtWait"
    | "go_pc s = AtReturn" | "go_pc s = Exited" by (auto simp add: stream_pcs_def)
  then show ?thesis
  proof cases
    case 1
    show ?thesis
    proof (cases "speak_err inp 0")
      case None
      have "chan_inv (s\<lparr>spoken := spoken s @ [txt], go_pc := AtFlush\<rparr>)"
        using ci 1 by (simp add: chan_inv_pc)
      then show ?thesis using 1 None fi
        by (simp add: stream_step_def go_ok_def tts_inv_def flush_inv_def before_flush_def
            stream_pcs_def)
    next
      case (Some e)
      from send_error_and_return_inv[of "s\<lparr>spoken := spoken s @ [txt]\<rparr>" "pick inp"
          "Errorf_w ''failed to send text'' e"] ci 1
      obtain s' where "send_error_and_return (pick inp) (s\<lparr>spoken := spoken s @ [txt]\<rparr>)
          (Errorf_w ''failed to send text'' e) = Inr s'" "chan_inv s'" "go_pc s' = AtReturn"
        "flushes s' = flushes s" "tts_ctx_done s' = tts_ctx_done s" "grows_by_error s s'"
        by auto
      then show ?thesis using 1 Some fi
        by (simp add: stream_step_def go_ok_def tts_inv_def flush_inv_def before_flush_def
            stream_pcs_def)
    qed
  next
    case 2
    with fi have f0: "flushes s = 0" by (simp add: flush_inv_def before_flush_def)
    show ?thesis
    proof (cases "flush_err inp")
      case None
      have "chan_inv (s\<lparr>flushes := flushes s + 1, go_pc := AtWait\<rparr>)"
        using ci 2 by (simp add: chan_inv_pc)
      then show ?thesis using 2 None f0
        by (simp add: stream_step_def go_ok_def tts_inv_def flush_inv_def before_flush_def
            stream_pcs_def)
    next
      case (Some e)
      from send_error_and_return_inv[of "s\<lparr>flushes := flushes s + 1\<rparr>" "pick inp"
          "Errorf_w ''failed to flush'' e"] ci 2
      obtain s' where "send_error_and_return (pick inp) (s\<lparr>flushes := flushes s + 1\<rparr>)
          (Errorf_w ''failed to flush'' e) = Inr s'" "chan_inv s'" "go_pc s' = AtReturn"
        "flushes s' = flushes s + 1" "tts_ctx_done s' = tts_ctx_done s" "grows_by_error s s'"
        by auto
      then show ?thesis using 2 Some f0
        by (simp add: stream_step_def go_ok_def tts_inv_def flush_inv_def before_flush_def
            stream_pcs_def)
    qed
  next
    case 3
    have "chan_inv (s\<lparr>go_pc := AtReturn\<rparr>)" using ci 3 by (simp add: chan_inv_pc)
    then show ?thesis using 3 inv
      by (simp add: stream_step_def go_ok_def tts_inv_def flush_inv_def before_flush_def
          stream_pcs_def)
  next
    case 4
    from deferred_close_inv[OF ci] 4 obtain s' where "deferred_close s = Inr s'" "chan_inv s'"
      "go_pc s' = Exited" "flushes s' = flushes s" "tts_ctx_done s' = tts_ctx_done s"
      "delivered s' = delivered s" by auto
    then show ?thesis using 4 fi
      by (simp add: stream_step_def go_ok_def tts_inv_def flush_inv_def before_flush_def
          stream_pcs_def grows_by_error_def)
  next
    case 5
    then show ?thesis using inv
      by (simp add: stream_step_def go_ok_def stream_pcs_def)
  qed
qed

lemma reader_chunk_inv:
  assumes ci: "chan_inv s" and fi: "flush_inv s" and pc: "go_pc s = AtLoop"
    and nx: "next = AtLoop \<or> next = AtEOFSpeak"
  shows "\<exists>s'. reader_chunk TrimSpace T inp s chunk next = Inr s' \<and> chan_inv s' \<and> flush_inv s'
      \<and> reader_pcs (go_pc s') \<and> tts_ctx_done s' = tts_ctx_done s \<and> grows_by_error s s'"
proof -
  from fi pc have f0: "flushes s = 0" by (simp add: flush_inv_def before_flush_def)
  have plain: "\<And>s1. chan_inv s1 \<Longrightarrow> go_pc s1 = AtLoop \<Longrightarrow> flushes s1 = 0 \<Longrightarrow>
      chan_inv (s1\<lparr>go_pc := next\<rparr>) \<and> flush_inv (s1\<lparr>go_pc := next\<rparr>)
      \<and> reader_pcs (go_pc (s1\<lparr>go_pc := next\<rparr>))"
    using nx by (auto simp add: chan_inv_pc flush_inv_def before_flush_def reader_pcs_def)
  show ?thesis
  proof (cases "length chunk > 0")
    case False
    with plain[OF ci pc f0] show ?thesis by (simp add: reader_chunk_def)
  next
    case True
    let ?s1 = "s\<lparr>textBuffer := textBuffer s @ chunk\<rparr>"
    let ?ss = "splitIntoSentences T (textBuffer s @ chunk)"
    show ?thesis
    proof (cases "length ?ss > 1")
      case False
      from plain[of ?s1] ci pc f0 have "chan_inv (?s1\<lparr>go_pc := next\<rparr>)
        \<and> flush_inv (?s1\<lparr>go_pc := next\<rparr>) \<and> reader_pcs (go_pc (?s1\<lparr>go_pc := next\<rparr>))" by simp
      with True False show ?thesis by (simp add: reader_chunk_def Let_def)
    next
      case long: True
      obtain texts r where sp: "speak_sentences TrimSpace (speak_err inp) 0 (butlast ?ss) = (texts, r)"
        by (cases "speak_sentences TrimSpace (speak_err inp) 0 (butlast ?ss)")
      show ?thesis
      proof (cases r)
        case None
        let ?s2 = "?s1\<lparr>spoken := spoken ?s1 @ texts, textBuffer := last ?ss\<rparr>"
        from plain[of ?s2] ci pc f0 have "chan_inv (?s2\<lparr>go_pc := next\<rparr>)
          \<and> flush_inv (?s2\<lparr>go_pc := next\<rparr>) \<and> reader_pcs (go_pc (?s2\<lparr>go_pc := next\<rparr>))" by simp
        with True long sp None show ?thesis by (simp add: reader_chunk_def Let_def)
      next
        case (Some e)
        let ?s2 = "?s1\<lparr>spoken := spoken ?s1 @ texts\<rparr>"
        from send_error_and_return_inv[of ?s2 "pick inp" "Errorf_w ''failed to send text'' e"] ci pc
        obtain s' where "send_error_and_return (pick inp) ?s2 (Errorf_w ''failed to send text'' e)
            = Inr s'" "chan_inv s'" "go_pc s' = AtReturn" "flushes s' = flushes s"
          "tts_ctx_done s' = tts_ctx_done s" "grows_by_error s s'" by auto
        with True long sp Some f0 show ?thesis
          by (simp add: reader_chunk_def Let_def flush_inv_def before_flush_def reader_pcs_def)
      qed
    qed
  qed
qed

lemma reader_step_inv:
  assumes inv: "tts_inv s" and pcs: "reader_pcs (go_pc s)"
  shows "\<exists>s'. reader_step TrimSpace T inp s = Inr s' \<and> go_ok reader_pcs s s'"
proof -
  from inv have ci: "chan_inv s" and fi: "flush_inv s" by (simp_all add: tts_inv_def)
  from pcs consider "go_pc s = AtLoop" | "go_pc s = AtCancelFlush" | "go_pc s = AtEOFSpeak"
    | "go_pc s = AtEOFFlush" | "go_pc s = AtWait" | "go_pc s = AtReturn" | "go_pc s = Exited"
    by (auto simp add: reader_pcs_def)
  then show ?thesis
  proof cases
    case 1
    with fi have f0: "flushes s = 0" by (simp add: flush_inv_def before_flush_def)
    show ?thesis
    proof (cases "tts_ctx_done s")
      case cancelled: True
      have plain: "\<And>s1. chan_inv s1 \<Longrightarrow> go_pc s1 = AtLoop \<Longrightarrow> flushes s1 = 0 \<Longrightarrow>
          tts_inv (s1\<lparr>go_pc := AtCancelFlush\<rparr>)"
        by (simp add: tts_inv_def chan_inv_pc flush_inv_def before_flush_def)
      show ?thesis
      proof (cases "length (textBuffer s) > 0 \<and> TrimSpace (textBuffer s) \<noteq> []")
        case False
        with plain[OF ci 1 f0] 1 cancelled show ?thesis
          by (auto simp add: reader_step_def go_ok_def reader_pcs_def)
      next
        case True
        let ?s1 = "s\<lparr>spoken := spoken s @ [TrimSpace (textBuffer s)]\<rparr>"
        show ?thesis
        proof (cases "speak_err inp 0")
          case None
          from plain[of ?s1] ci 1 f0 have "tts_inv (?s1\<lparr>go_pc := AtCancelFlush\<rparr>)" by simp
          with True None 1 cancelled show ?thesis
            by (simp add: reader_step_def go_ok_def reader_pcs_def)
        next
          case (Some e)
          from send_error_inv[of ?s1 "pick inp" "Errorf_w ''failed to send text'' e"] ci
          obtain s' where s': "sendChunk (pick inp) ?s1 (error_chunk (Errorf_w ''failed to send text'' e))
              = Inr s'" "chan_inv s'" "go_pc s' = go_pc s" "flushes s' = flushes s"
            "tts_ctx_done s' = tts_ctx_done s" "grows_by_error s s'" by auto
          from plain[of s'] s' 1 f0 have "tts_inv (s'\<lparr>go_pc := AtCancelFlush\<rparr>)" by simp
          with True Some 1 cancelled s' show ?thesis
            by (simp add: reader_step_def go_ok_def reader_pcs_def)
        qed
      qed
    next
      case False
      obtain chunk err where rr: "read_result inp = (chunk, err)" by (cases "read_result inp")
      show ?thesis
      proof (cases "read_failure err")
        case (Some e)
        from send_error_and_return_inv[OF ci, of "pick inp" "Errorf_w ''failed to read text'' e"] 1
        obtain s' where "send_error_and_return (pick inp) s (Errorf_w ''failed to read text'' e)
            = Inr s'" "chan_inv s'" "go_pc s' = AtReturn" "flushes s' = flushes s"
          "tts_ctx_done s' = tts_ctx_done s" "grows_by_error s s'" by auto
        with 1 False rr Some f0 show ?thesis
          by (simp add: reader_step_def go_ok_def reader_pcs_def tts_inv_def flush_inv_def
              before_flush_def)
      next
        case None
        have nx: "(if err = Some EOF then AtEOFSpeak else AtLoop) = AtLoop
            \<or> (if err = Some EOF then AtEOFSpeak else AtLoop) = AtEOFSpeak" by simp
        from reader_chunk_inv[OF ci fi 1 nx, of TrimSpace T inp chunk]
        obtain s' where "reader_chunk TrimSpace T inp s chunk
            (if err = Some EOF then AtEOFSpeak else AtLoop) = Inr s'" "chan_inv s'" "flush_inv s'"
          "reader_pcs (go_pc s')" "tts_ctx_done s' = tts_ctx_done s" "grows_by_error s s'"
          by blast
        with 1 False rr None show ?thesis
          by (simp add: reader_step_def go_ok_def tts_inv_def)
      qed
    qed
  next
    case 2
    with fi have f0: "flushes s = 0" by (simp add: flush_inv_def before_flush_def)
    show ?thesis
    proof (cases "flush_err inp")
      case None
      have "chan_inv (s\<lparr>flushes := flushes s + 1, go_pc := AtReturn\<rparr>)"
        using ci 2 by (simp add: chan_inv_pc)
      then show ?thesis using 2 None f0
        by (simp add: reader_step_def go_ok_def tts_inv_def flush_inv_def before_flush_def
            reader_pcs_def)
    next
      case (Some e)
      from send_error_and_return_inv[of "s\<lparr>flushes := flushes s + 1\<rparr>" "pick inp"
          "Errorf_w ''failed to flush'' e"] ci 2
      obtain s' where "send_error_and_return (pick inp) (s\<lparr>flushes := flushes s + 1\<rparr>)
          (Errorf_w ''failed to flush'' e) = Inr s'" "chan_inv s'" "go_pc s' = AtReturn"
        "flushes s' = flushes s + 1" "tts_ctx_done s' = tts_ctx_done s" "grows_by_error s s'"
        by auto
      then show ?thesis using 2 Some f0
        by (simp add: reader_step_def go_ok_def tts_inv_def flush_inv_def before_flush_def
            reader_pcs_def)
    qed
  next
    case 3
    with fi have f0: "flushes s = 0" by (simp add: flush_inv_def before_flush_def)
    show ?thesis
    proof (cases "TrimSpace (textBuffer s) \<noteq> []")
      case False
      have "chan_inv (s\<lparr>go_pc := AtEOFFlush\<rparr>)" using ci 3 by (simp add: chan_inv_pc)
      then show ?thesis using 3 False f0 fi
        by (simp add: reader_step_def go_ok_def tts_inv_def flush_inv_def before_flush_def
            reader_pcs_def)
    next
      case True
      let ?s1 = "s\<lparr>spoken := spoken s @ [TrimSpace (textBuffer s)]\<rparr>"
      show ?thesis
      proof (cases "speak_err inp 0")
        case None
        have "chan_inv (?s1\<lparr>go_pc := AtEOFFlush\<rparr>)" using ci 3 by (simp add: chan_inv_pc)
        then show ?thesis using 3 True None f0 fi
          by (simp add: reader_step_def go_ok_def tts_inv_def flush_inv_def before_flush_def
              reader_pcs_def)
      next
        case (Some e)
        from send_error_and_return_inv[of ?s1 "pick inp" "Errorf_w ''failed to send text'' e"] ci 3
        obtain s' where "send_error_and_return (pick inp) ?s1 (Errorf_w ''failed to send text'' e)
            = Inr s'" "chan_inv s'" "go_pc s' = AtReturn" "flushes s' = flushes s"
          "tts_ctx_done s' = tts_ctx_done s" "grows_by_error s s'" by auto
        then show ?thesis using 3 True Some f0
          by (simp add: reader_step_def go_ok_def tts_inv_def flush_inv_def before_flush_def
              reader_pcs_def)
      qed
    qed
  next
    case 4
    with fi have f0: "flushes s = 0" by (simp add: flush_inv_def before_flush_def)
    show ?thesis
    proof (cases "flush_err inp")
      case None
      have "chan_inv (s\<lparr>flushes := flushes s + 1, go_pc := AtWait\<rparr>)"
        using ci 4 by (simp add: chan_inv_pc)
      then show ?thesis using 4 None f0
        by (simp add: reader_step_def go_ok_def tts_inv_def flush_inv_def before_flush_def
            reader_pcs_def)
    next
      case (Some e)
      let ?s1 = "s\<lparr>flushes := flushes s + 1\<rparr>"
      from send_error_inv[of ?s1 "pick inp" "Errorf_w ''failed to flush'' e"] ci
      obtain s' where s': "sendChunk (pick inp) ?s1 (error_chunk (Errorf_w ''failed to flush'' e))
          = Inr s'" "chan_inv s'" "go_pc s' = go_pc s" "flushes s' = flushes s + 1"
        "tts_ctx_done s' = tts_ctx_done s" "grows_by_error s s'" by auto
      have "chan_inv (s'\<lparr>go_pc := AtWait\<rparr>)" using s' 4 by (simp add: chan_inv_pc)
      then show ?thesis using 4 Some f0 s'
        by (simp add: reader_step_def go_ok_def tts_inv_def flush_inv_def before_flush_def
            reader_pcs_def)
    qed
  next
    case 5
    have "chan_inv (s\<lparr>go_pc := AtReturn\<rparr>)" using ci 5 by (simp add: chan_inv_pc)
    then show ?thesis using 5 inv
      by (simp add: reader_step_def go_ok_def tts_inv_def flush_inv_def before_flush_def
          reader_pcs_def)
  next
    case 6
    from deferred_close_inv[OF ci] 6 obtain s' where "deferred_close s = Inr s'" "chan_inv s'"
      "go_pc s' = Exited" "flushes s' = flushes s" "tts_ctx_done s' = tts_ctx_done s"
      "delivered s' = delivered s" by auto
    then show ?thesis using 6 fi
      by (simp add: reader_step_def go_ok_def tts_inv_def flush_inv_def before_flush_def
          reader_pcs_def grows_by_error_def)
  next
    case 7
    then show ?thesis using inv
      by (simp add: reader_step_def go_ok_def reader_pcs_def)
  qed
qed

subsection \<open>Runs of a TTS stream\<close>

lemma stream_goroutine_ok: "goroutine_ok stream_pcs (stream_step txt)"
  unfolding goroutine_ok_def using stream_step_inv by blast

lemma reader_goroutine_ok: "goroutine_ok reader_pcs (reader_step TrimSpace T)"
  unfolding goroutine_ok_def using reader_step_inv by blast

lemma final_markers_grows:
  "grows_by_error s s' \<Longrightarrow> final_markers s' = final_markers s"
  by (auto simp add: grows_by_error_def final_markers_def error_chunk_def)

lemma callback_send:
  assumes "tts_inv s"
  shows "\<exists>s'. sendChunk p s c = Inr s' \<and> tts_inv s' \<and> go_pc s' = go_pc s
      \<and> tts_ctx_done s' = tts_ctx_done s
      \<and> final_markers s' \<le> final_markers s + (if IsFinal c then 1 else 0)"
proof -
  from assms have ci: "chan_inv s" and fi: "flush_inv s" by (simp_all add: tts_inv_def)
  from sendChunk_inv[OF ci, of p c] obtain s' where s': "sendChunk p s c = Inr s'" "chan_inv s'"
    "go_pc s' = go_pc s" "flushes s' = flushes s" "tts_ctx_done s' = tts_ctx_done s"
    "delivered s' = delivered s \<or> delivered s' = delivered s @ [c]" by blast
  have "tts_inv s'" using s' fi by (simp add: tts_inv_def flush_inv_def)
  moreover have "final_markers s' \<le> final_markers s + (if IsFinal c then 1 else 0)"
    using s'(6) by (auto simp add: final_markers_def)
  ultimately show ?thesis using s' by simp
qed

lemma tts_receive_inv:
  assumes "tts_inv s"
  shows "tts_inv (tts_receive s) \<and> go_pc (tts_receive s) = go_pc s
      \<and> tts_ctx_done (tts_receive s) = tts_ctx_done s \<and> delivered (tts_receive s) = delivered s"
  using assms
  by (auto simp add: tts_receive_def chan_recv_def tts_inv_def chan_inv_def flush_inv_def
      delivered_def split: list.splits)

lemma tts_step_ok:
  assumes g: "goroutine_ok pcs g" and inv: "tts_inv s" and pcs: "pcs (go_pc s)"
  shows "\<exists>s'. tts_step g s e = Inr s' \<and> tts_inv s' \<and> pcs (go_pc s')
      \<and> (tts_ctx_done s' \<longleftrightarrow> tts_ctx_done s \<or> e = Cancel)
      \<and> final_markers s' \<le> final_markers s + (if is_OnFlush e then 1 else 0)
      \<and> (go_pc s = Exited \<longrightarrow> go_pc s' = Exited)
      \<and> (if is_Go e \<and> tts_ctx_done s
          then steps_left (go_pc s') < steps_left (go_pc s) \<or> go_pc s = Exited
          else is_Go e \<or> go_pc s' = go_pc s)"
proof (cases e)
  case (OnBinary data p)
  from callback_send[OF inv, of p "audio_chunk data"] pcs show ?thesis
    by (auto simp add: OnBinary ttsCallbackHandler_Binary_def audio_chunk_def)
next
  case (OnFlush p)
  from callback_send[OF inv, of p final_chunk] pcs show ?thesis
    by (auto simp add: OnFlush ttsCallbackHandler_Flush_def final_chunk_def)
next
  case (OnTTSError er p)
  show ?thesis
  proof (cases er)
    case None
    with inv pcs show ?thesis by (simp add: OnTTSError ttsCallbackHandler_Error_def)
  next
    case (Some d)
    from callback_send[OF inv, of p "error_chunk (Errorf_s ''deepgram TTS error: '' d)"] pcs
    show ?thesis
      by (auto simp add: OnTTSError Some ttsCallbackHandler_Error_def error_chunk_def)
  qed
next
  case Cancel
  have "tts_inv (s\<lparr>tts_ctx_done := True\<rparr>)"
    using inv by (simp add: tts_inv_def chan_inv_def flush_inv_def)
  then show ?thesis using pcs by (simp add: Cancel final_markers_def)
next
  case (Go inp)
  from g inv pcs obtain s' where s': "g inp s = Inr s'" "go_ok pcs s s'"
    unfolding goroutine_ok_def by blast
  then show ?thesis
    using final_markers_grows[of s s'] by (auto simp add: Go go_ok_def)
next
  case Receive
  from tts_receive_inv[OF inv] pcs show ?thesis by (simp add: Receive final_markers_def)
qed

lemma tts_run_append:
  "tts_run g s (es1 @ es2) = and_then (tts_run g s es1) (\<lambda>s'. tts_run g s' es2)"
  by (induction es1 arbitrary: s) (simp_all add: and_then_def split: sum.splits)

lemma tts_run_ok:
  assumes g: "goroutine_ok pcs g"
  shows "tts_inv s \<Longrightarrow> pcs (go_pc s) \<Longrightarrow>
    \<exists>s'. tts_run g s es = Inr s' \<and> tts_inv s' \<and> pcs (go_pc s')
      \<and> (tts_ctx_done s \<longrightarrow> tts_ctx_done s')
      \<and> final_markers s' \<le> final_markers s + length (filter is_OnFlush es)
      \<and> (go_pc s = Exited \<longrightarrow> go_pc s' = Exited)
      \<and> (tts_ctx_done s \<longrightarrow> steps_left (go_pc s') \<le> steps_left (go_pc s) - length (filter is_Go es))"
proof (induction es arbitrary: s)
  case Nil
  then show ?case by simp
next
  case (Cons e es)
  from tts_step_ok[OF g Cons.prems, of e] obtain s1 where
    s1: "tts_step g s e = Inr s1" "tts_inv s1" "pcs (go_pc s1)"
      "tts_ctx_done s1 \<longleftrightarrow> tts_ctx_done s \<or> e = Cancel"
      "final_markers s1 \<le> final_markers s + (if is_OnFlush e then 1 else 0)"
      "go_pc s = Exited \<longrightarrow> go_pc s1 = Exited"
      "if is_Go e \<and> tts_ctx_done s
          then steps_left (go_pc s1) < steps_left (go_pc s) \<or> go_pc s = Exited
          else is_Go e \<or> go_pc s1 = go_pc s"
    by blast
  from Cons.IH[OF s1(2,3)] obtain s' where
    s': "tts_run g s1 es = Inr s'" "tts_inv s'" "pcs (go_pc s')"
      "tts_ctx_done s1 \<longrightarrow> tts_ctx_done s'"
      "final_markers s' \<le> final_markers s1 + length (filter is_OnFlush es)"
      "go_pc s1 = Exited \<longrightarrow> go_pc s' = Exited"
      "tts_ctx_done s1 \<longrightarrow> steps_left (go_pc s') \<le> steps_left (go_pc s1) - length (filter is_Go es)"
    by blast
  have run: "tts_run g s (e # es) = Inr s'" using s1(1) s'(1) by simp
  have fm: "final_markers s' \<le> final_markers s + length (filter is_OnFlush (e # es))"
    using s1(5) s'(5) by auto
  have ex: "go_pc s = Exited \<longrightarrow> go_pc s' = Exited" using s1(6) s'(6) by simp
  have cd: "tts_ctx_done s \<longrightarrow> tts_ctx_done s'" using s1(4) s'(4) by simp
  have rk: "tts_ctx_done s \<longrightarrow>
      steps_left (go_pc s') \<le> steps_left (go_pc s) - length (filter is_Go (e # es))"
  proof
    assume d: "tts_ctx_done s"
    then have d1: "tts_ctx_done s1" using s1(4) by simp
    with s'(7) have a: "steps_left (go_pc s') \<le> steps_left (go_pc s1) - length (filter is_Go es)"
      by simp
    show "steps_left (go_pc s') \<le> steps_left (go_pc s) - length (filter is_Go (e # es))"
    proof (cases "is_Go e")
      case True
      with s1(7) d consider "steps_left (go_pc s1) < steps_left (go_pc s)" | "go_pc s = Exited"
        by auto
      then show ?thesis
      proof cases
        case 1
        with a True show ?thesis by simp
      next
        case 2
        with ex have "go_pc s' = Exited" by simp
        then show ?thesis by simp
      qed
    next
      case False
      with s1(7) have "go_pc s1 = go_pc s" by auto
      with a False show ?thesis by simp
    qed
  qed
  from run s'(2,3) cd fm ex rk show ?case by blast
qed

subsection \<open>A full channel drops what it is offered\<close>

lemma sendChunk_open:
  assumes "\<not> h_closed s" "\<not> chan_closed (chunkCh s)" "\<not> tts_ctx_done s"
  shows "sendChunk p s c =
     Inr (if length (chan_buf (chunkCh s)) < chan_cap (chunkCh s)
          then s\<lparr>chunkCh := (chunkCh s)\<lparr>chan_buf := chan_buf (chunkCh s) @ [c]\<rparr>\<rparr> else s)"
  using assms
  by (simp add: sendChunk_def select_send_def send_ready_def chan_send_def)

lemma sendChunk_full:
  assumes "\<not> chan_closed (chunkCh s)" "length (chan_buf (chunkCh s)) = chan_cap (chunkCh s)"
  shows "sendChunk p s c = Inr s"
  using assms
  by (simp add: sendChunk_def select_send_def send_ready_def)

lemma send_all_bounded:
  "chan_closed (chunkCh s) = h_closed s \<Longrightarrow> length (chan_buf (chunkCh s)) \<le> chan_cap (chunkCh s)
   \<Longrightarrow> \<exists>s'. send_all s items = Inr s'
        \<and> length (chan_buf (chunkCh s')) \<le> chan_cap (chunkCh s')
        \<and> chan_cap (chunkCh s') = chan_cap (chunkCh s)"
proof (induction items arbitrary: s)
  case Nil
  then show ?case by simp
next
  case (Cons a items)
  obtain c p where a: "a = (c, p)" by (cases a)
  from sendChunk_cases[OF Cons.prems(1), of p c] obtain s1 where
    s1: "sendChunk p s c = Inr s1" "chan_closed (chunkCh s1) = h_closed s1"
      "length (chan_buf (chunkCh s1)) \<le> chan_cap (chunkCh s1)"
      "chan_cap (chunkCh s1) = chan_cap (chunkCh s)"
    using Cons.prems by auto
  from Cons.IH[OF s1(2,3)] s1(1,4) show ?case by (simp add: a)
qed

lemma send_all_take:
  assumes "\<not> h_closed s" "\<not> chan_closed (chunkCh s)" "\<not> tts_ctx_done s"
  shows "\<exists>s'. send_all s items = Inr s'
     \<and> chan_buf (chunkCh s') =
         chan_buf (chunkCh s) @ take (chan_cap (chunkCh s) - length (chan_buf (chunkCh s))) (map fst items)
     \<and> \<not> chan_closed (chunkCh s')"
  using assms
proof (induction items arbitrary: s)
  case Nil
  then show ?case by simp
next
  case (Cons a items)
  obtain c p where a: "a = (c, p)" by (cases a)
  let ?s1 = "if length (chan_buf (chunkCh s)) < chan_cap (chunkCh s)
          then s\<lparr>chunkCh := (chunkCh s)\<lparr>chan_buf := chan_buf (chunkCh s) @ [c]\<rparr>\<rparr> else s"
  have s1: "sendChunk p s c = Inr ?s1" using Cons.prems by (rule sendChunk_open)
  have p1: "\<not> h_closed ?s1" "\<not> chan_closed (chunkCh ?s1)" "\<not> tts_ctx_done ?s1"
    using Cons.prems by simp_all
  from Cons.IH[OF p1] obtain s' where s': "send_all ?s1 items = Inr s'"
    "chan_buf (chunkCh s') = chan_buf (chunkCh ?s1) @
       take (chan_cap (chunkCh ?s1) - length (chan_buf (chunkCh ?s1))) (map fst items)"
    "\<not> chan_closed (chunkCh s')" by blast
  have run: "send_all s (a # items) = Inr s'" using s1 s'(1) by (simp add: a)
  show ?case
  proof (cases "length (chan_buf (chunkCh s)) < chan_cap (chunkCh s)")
    case True
    then obtain k where k: "chan_cap (chunkCh s) - length (chan_buf (chunkCh s)) = Suc k"
      by (cases "chan_cap (chunkCh s) - length (chan_buf (chunkCh s))") simp_all
    then have k': "chan_cap (chunkCh s) - Suc (length (chan_buf (chunkCh s))) = k" by simp
    from s'(2) True have "chan_buf (chunkCh s') = chan_buf (chunkCh s) @
        take (chan_cap (chunkCh s) - length (chan_buf (chunkCh s))) (map fst (a # items))"
      by (simp add: a k k')
    with run s'(3) show ?thesis by blast
  next
    case False
    with s'(2) have "chan_buf (chunkCh s') = chan_buf (chunkCh s) @
        take (chan_cap (chunkCh s) - length (chan_buf (chunkCh s))) (map fst (a # items))"
      by simp
    with run s'(3) show ?thesis by blast
  qed
qed

lemma select_open:
  assumes "\<not> chan_closed (eventCh s)" "\<not> stt_ctx_done s"
  shows "drop_result (callbackHandler_select p s ev) =
     Inr (if length (chan_buf (eventCh s)) < chan_cap (eventCh s)
          then s\<lparr>eventCh := (eventCh s)\<lparr>chan_buf := chan_buf (eventCh s) @ [ev]\<rparr>\<rparr> else s)"
  using assms
  by (simp add: callbackHandler_select_def select_send_def send_ready_def chan_send_def
      drop_result_def)

lemma select_full:
  assumes "\<not> chan_closed (eventCh s)" "length (chan_buf (eventCh s)) = chan_cap (eventCh s)"
  shows "drop_result (callbackHandler_select p s ev) = Inr s"
  using assms
  by (simp add: callbackHandler_select_def select_send_def send_ready_def drop_result_def)

lemma emit_all_take:
  assumes "\<not> chan_closed (eventCh s)" "\<not> stt_ctx_done s"
  shows "\<exists>s'. emit_all s items = Inr s'
     \<and> chan_buf (eventCh s') =
         chan_buf (eventCh s) @ take (chan_cap (eventCh s) - length (chan_buf (eventCh s))) (map fst items)
     \<and> \<not> chan_closed (eventCh s')"
  using assms
proof (induction items arbitrary: s)
  case Nil
  then show ?case by simp
next
  case (Cons a items)
  obtain c p where a: "a = (c, p)" by (cases a)
  let ?s1 = "if length (chan_buf (eventCh s)) < chan_cap (eventCh s)
          then s\<lparr>eventCh := (eventCh s)\<lparr>chan_buf := chan_buf (eventCh s) @ [c]\<rparr>\<rparr> else s"
  have s1: "drop_result (callbackHandler_select p s c) = Inr ?s1"
    using Cons.prems by (rule select_open)
  have p1: "\<not> chan_closed (eventCh ?s1)" "\<not> stt_ctx_done ?s1"
    using Cons.prems by simp_all
  from Cons.IH[OF p1] obtain s' where s': "emit_all ?s1 items = Inr s'"
    "chan_buf (eventCh s') = chan_buf (eventCh ?s1) @
       take (chan_cap (eventCh ?s1) - length (chan_buf (eventCh ?s1))) (map fst items)"
    "\<not> chan_closed (eventCh s')" by blast
  have run: "emit_all s (a # items) = Inr s'" using s1 s'(1) by (simp add: a)
  show ?case
  proof (cases "length (chan_buf (eventCh s)) < chan_cap (eventCh s)")
    case True
    then obtain k where k: "chan_cap (eventCh s) - length (chan_buf (eventCh s)) = Suc k"
      by (cases "chan_cap (eventCh s) - length (chan_buf (eventCh s))") simp_all
    then have k': "chan_cap (eventCh s) - Suc (length (chan_buf (eventCh s))) = k" by simp
    from s'(2) True have "chan_buf (eventCh s') = chan_buf (eventCh s) @
        take (chan_cap (eventCh s) - length (chan_buf (eventCh s))) (map fst (a # items))"
      by (simp add: a k k')
    with run s'(3) show ?thesis by blast
  next
    case False
    with s'(2) have "chan_buf (eventCh s') = chan_buf (eventCh s) @
        take (chan_cap (eventCh s) - length (chan_buf (eventCh s))) (map fst (a # items))"
      by simp
    with run s'(3) show ?thesis by blast
  qed
qed

text \<open>
  C8. The chunk channel and the event channel have capacity 100. When a producer offers
  any number of items before a consumer reads, no call panics and every call returns; the
  channel holds at most 100 items, the first 100 offered when the context is not done; an
  item offered while the channel is full leaves it as it was.
\<close>

theorem full_channel_drops:
  "(\<exists>s'. send_all (tts_new False start) items = Inr s'
      \<and> chan_buf (chunkCh s') = take 100 (map fst items) \<and> \<not> chan_closed (chunkCh s'))
   \<and> (\<exists>s'. send_all (tts_new d start) items = Inr s' \<and> length (chan_buf (chunkCh s')) \<le> 100)
   \<and> (\<not> chan_closed (chunkCh s) \<and> length (chan_buf (chunkCh s)) = chan_cap (chunkCh s)
        \<longrightarrow> sendChunk p s chunk = Inr s)
   \<and> (\<exists>t'. emit_all (stt_new False) events = Inr t'
      \<and> chan_buf (eventCh t') = take 100 (map fst events) \<and> \<not> chan_closed (eventCh t'))
   \<and> (\<not> chan_closed (eventCh t) \<and> length (chan_buf (eventCh t)) = chan_cap (eventCh t)
        \<longrightarrow> drop_result (callbackHandler_select p t event) = Inr t)"
proof (intro conjI)
  show "\<exists>s'. send_all (tts_new False start) items = Inr s'
      \<and> chan_buf (chunkCh s') = take 100 (map fst items) \<and> \<not> chan_closed (chunkCh s')"
    using send_all_take[of "tts_new False start" items]
    by (simp add: tts_new_def make_chan_def)
  show "\<exists>s'. send_all (tts_new d start) items = Inr s' \<and> length (chan_buf (chunkCh s')) \<le> 100"
    using send_all_bounded[of "tts_new d start" items]
    by (auto simp add: tts_new_def make_chan_def)
  show "\<not> chan_closed (chunkCh s) \<and> length (chan_buf (chunkCh s)) = chan_cap (chunkCh s)
        \<longrightarrow> sendChunk p s chunk = Inr s"
    using sendChunk_full by blast
  show "\<exists>t'. emit_all (stt_new False) events = Inr t'
      \<and> chan_buf (eventCh t') = take 100 (map fst events) \<and> \<not> chan_closed (eventCh t')"
    using emit_all_take[of "stt_new False" events]
    by (simp add: stt_new_def make_chan_def)
  show "\<not> chan_closed (eventCh t) \<and> length (chan_buf (eventCh t)) = chan_cap (eventCh t)
        \<longrightarrow> drop_result (callbackHandler_select p t event) = Inr t"
    using select_full by blast
qed

theorem full_channel_drops_witness:
  "(\<exists>s'. send_all (tts_new False AtSpeak)
        (replicate 101 (audio_chunk ''a'', True) @ [(final_chunk, True)]) = Inr s'
      \<and> chan_buf (chunkCh s') = replicate 100 (audio_chunk ''a''))
   \<and> sendChunk True full_tts final_chunk = Inr full_tts
   \<and> drop_result (callbackHandler_select True full_stt EventSpeechEnd) = Inr full_stt"
proof -
  note t = full_channel_drops[of AtSpeak
      "replicate 101 (audio_chunk ''a'', True) @ [(final_chunk, True)]" False full_tts True
      final_chunk "[]::(string StreamEvent \<times> bool) list" full_stt EventSpeechEnd]
  from t obtain s' where "send_all (tts_new False AtSpeak)
        (replicate 101 (audio_chunk ''a'', True) @ [(final_chunk, True)]) = Inr s'"
      "chan_buf (chunkCh s') = take 100 (map fst
        (replicate 101 (audio_chunk ''a'', True) @ [(final_chunk, True)]))" by blast
  then have a: "\<exists>s'. send_all (tts_new False AtSpeak)
        (replicate 101 (audio_chunk ''a'', True) @ [(final_chunk, True)]) = Inr s'
      \<and> chan_buf (chunkCh s') = replicate 100 (audio_chunk ''a'')"
    by (simp add: take_replicate)
  have "\<not> chan_closed (chunkCh full_tts)
      \<and> length (chan_buf (chunkCh full_tts)) = chan_cap (chunkCh full_tts)"
    by (simp add: full_tts_def)
  with t have b: "sendChunk True full_tts final_chunk = Inr full_tts" by blast
  have "\<not> chan_closed (eventCh full_stt)
      \<and> length (chan_buf (eventCh full_stt)) = chan_cap (eventCh full_stt)"
    by (simp add: full_stt_def)
  with t have c: "drop_result (callbackHandler_select True full_stt EventSpeechEnd) = Inr full_stt"
    by blast
  from a b c show ?thesis by blast
qed

subsection \<open>Writing after the close\<close>

lemma stt_run_closed:
  assumes "stt_inv s" "w_closed s" "stt_run cw s es = Inr s'"
  shows "w_closed s'"
  using stt_run_inv[OF assms(1,3)] assms(2) by simp

text \<open>
  C9. A \<^verbatim>\<open>Write\<close> on a closed writer returns 0 and the closed-pipe error and passes
  nothing to the client; a \<^verbatim>\<open>Write\<close> on an open writer passes its bytes to the
  client and returns the client's answer. Once \<^verbatim>\<open>Close\<close> has returned, every later
  \<^verbatim>\<open>Write\<close> is of the first kind, whatever happens in between.
\<close>

theorem write_after_close:
  "(w_closed s \<longrightarrow> streamWriter_Write cw s p = (s, 0, Some ErrClosedPipe))
   \<and> (\<not> w_closed s \<longrightarrow>
        streamWriter_Write cw s p = (s\<lparr>client_written := client_written s @ [p]\<rparr>, cw p))
   \<and> (stt_inv s \<longrightarrow>
        (\<exists>s1. streamWriter_Close s = Inr s1
           \<and> (\<forall>es s2. stt_run cw s1 es = Inr s2 \<longrightarrow>
                 streamWriter_Write cw s2 p = (s2, 0, Some ErrClosedPipe))))"
proof (intro conjI impI)
  assume "w_closed s"
  then show "streamWriter_Write cw s p = (s, 0, Some ErrClosedPipe)"
    by (simp add: streamWriter_Write_def)
next
  assume "\<not> w_closed s"
  then show "streamWriter_Write cw s p = (s\<lparr>client_written := client_written s @ [p]\<rparr>, cw p)"
    by (simp add: streamWriter_Write_def)
next
  assume inv: "stt_inv s"
  from Close_inv[OF inv] obtain s1 where s1: "streamWriter_Close s = Inr s1" "stt_inv s1"
    "w_closed s1" by blast
  have "\<forall>es s2. stt_run cw s1 es = Inr s2 \<longrightarrow>
      streamWriter_Write cw s2 p = (s2, 0, Some ErrClosedPipe)"
    using stt_run_closed[OF s1(2,3)] by (simp add: streamWriter_Write_def)
  with s1(1) show "\<exists>s1. streamWriter_Close s = Inr s1
           \<and> (\<forall>es s2. stt_run cw s1 es = Inr s2 \<longrightarrow>
                 streamWriter_Write cw s2 p = (s2, 0, Some ErrClosedPipe))" by blast
qed

theorem write_after_close_witness:
  "streamWriter_Write (\<lambda>p. (length p, None)) (stt_new False :: string stt_session) ''ab''
     = ((stt_new False)\<lparr>client_written := [''ab'']\<rparr>, 2, None)
   \<and> (\<exists>s1. streamWriter_Close (stt_new False :: string stt_session) = Inr s1
        \<and> streamWriter_Write (\<lambda>p. (length p, None)) s1 ''ab'' = (s1, 0, Some ErrClosedPipe))"
proof -
  note t = write_after_close[of "stt_new False :: string stt_session" "\<lambda>p. (length p, None)" "''ab''"]
  have n: "\<not> w_closed (stt_new False :: string stt_session)" by (simp add: stt_new_def)
  with t have a: "streamWriter_Write (\<lambda>p. (length p, None)) (stt_new False :: string stt_session) ''ab''
     = ((stt_new False)\<lparr>client_written := [''ab'']\<rparr>, 2, None)"
    by (simp add: stt_new_def)
  from t stt_new_inv[of False] obtain s1 where
    s1: "streamWriter_Close (stt_new False :: string stt_session) = Inr s1"
    "\<forall>es s2. stt_run (\<lambda>p. (length p, None)) s1 es = Inr s2 \<longrightarrow>
        streamWriter_Write (\<lambda>p. (length p, None)) s2 ''ab'' = (s2, 0, Some ErrClosedPipe)"
    by blast
  from s1(2) have "stt_run (\<lambda>p. (length p, None)) s1 [] = Inr s1 \<longrightarrow>
        streamWriter_Write (\<lambda>p. (length p, None)) s1 ''ab'' = (s1, 0, Some ErrClosedPipe)"
    by blast
  then have "streamWriter_Write (\<lambda>p. (length p, None)) s1 ''ab'' = (s1, 0, Some ErrClosedPipe)"
    by simp
  with a s1(1) show ?thesis by blast
qed

subsection \<open>A callback after the close\<close>

text \<open>
  C1. The specification has no send into the channel attempted after the channel has been
  closed. On the STT stream the handler has no \<^verbatim>\<open>closed\<close> flag: after a successful
  \<^verbatim>\<open>TranscribeStream\<close> whose context is not done, the caller closes the writer and the
  SDK then delivers a message; the \<^verbatim>\<open>select\<close> of \<^verbatim>\<open>Message\<close> sends on the closed
  channel and panics.
\<close>

theorem send_on_closed_eventCh:
  "TranscribeStream False None True = Inr (stt_new False :: 'm stt_session, Inr ())
   \<and> stt_run cw (stt_new False) [CallerClose, OnMessage (Some (m :: 'm)) p]
       = Inl SendOnClosedChannel"
  by (simp add: TranscribeStream_def stt_new_def make_chan_def streamWriter_Close_def
      close_chan_def Let_def drop_result_def callbackHandler_Message_def
      callbackHandler_select_def select_send_def send_ready_def chan_send_def)

theorem send_on_closed_eventCh_witness:
  "stt_run (\<lambda>p. (length p, None)) (stt_new False) [CallerClose, OnMessage (Some ''hello'') True]
     = Inl SendOnClosedChannel"
  using send_on_closed_eventCh[of "\<lambda>p. (length p, None)" "''hello''" True] by simp

subsection \<open>A connection that fails\<close>

lemma sendChunk_closed_chan:
  "chan_closed (chunkCh s) \<Longrightarrow> sendChunk p s c = Inr s' \<Longrightarrow> s' = s"
  by (auto simp add: sendChunk_def select_send_def send_ready_def chan_send_def
      split: if_splits select_case.splits)

lemma select_closed_chan:
  "chan_closed (eventCh s) \<Longrightarrow> callbackHandler_select p s ev = Inr (s', r) \<Longrightarrow> s' = s"
  by (auto simp add: callbackHandler_select_def select_send_def send_ready_def chan_send_def
      split: if_splits select_case.splits)

lemma Close_closed_chan:
  "chan_closed (eventCh s) \<Longrightarrow> streamWriter_Close s = Inr s' \<Longrightarrow> s' = s"
  by (auto simp add: streamWriter_Close_def close_chan_def Let_def split: if_splits)

lemma stt_failed_step:
  assumes "stt_failed s" and "stt_step cw s e = Inr s'"
  shows "stt_failed s'"
proof (cases e)
  case (CallerWrite p)
  with assms show ?thesis
    by (auto simp add: streamWriter_Write_def stt_failed_def split: if_splits)
next
  case CallerClose
  with assms Close_closed_chan[of s s'] show ?thesis by (auto simp add: stt_failed_def)
next
  case CtxCancel
  with assms show ?thesis by (auto simp add: stt_failed_def)
next
  case (Watcher p)
  with assms Close_closed_chan[of s] show ?thesis
    by (auto simp add: watcher_step_def stt_failed_def and_then_eq_Inr split: if_splits)
next
  case (OnMessage mr p)
  with assms select_closed_chan[of s] show ?thesis
    by (cases mr) (auto simp add: drop_result_def callbackHandler_Message_def and_then_eq_Inr
        stt_failed_def)
next
  case (OnSpeechStarted p)
  with assms select_closed_chan[of s] show ?thesis
    by (auto simp add: drop_result_def callbackHandler_SpeechStarted_def and_then_eq_Inr
        stt_failed_def)
next
  case (OnUtteranceEnd p)
  with assms select_closed_chan[of s] show ?thesis
    by (auto simp add: drop_result_def callbackHandler_UtteranceEnd_def and_then_eq_Inr
        stt_failed_def)
next
  case (OnError er p)
  with assms select_closed_chan[of s] show ?thesis
    by (cases er) (auto simp add: drop_result_def callbackHandler_Error_def and_then_eq_Inr
        stt_failed_def)
next
  case ConsumerReceive
  with assms show ?thesis
    by (auto simp add: stt_receive_def chan_recv_def stt_failed_def split: list.splits)
qed

lemma stt_failed_run:
  "stt_failed s \<Longrightarrow> stt_run cw s es = Inr s' \<Longrightarrow> stt_failed s'"
proof (induction es arbitrary: s)
  case Nil
  then show ?case by simp
next
  case (Cons e es)
  from Cons.prems(2) obtain s1 where "stt_step cw s e = Inr s1" "stt_run cw s1 es = Inr s'"
    by (auto simp add: and_then_eq_Inr)
  with Cons.IH stt_failed_step[OF Cons.prems(1)] show ?case by blast
qed

lemma tts_failed_step:
  assumes f: "tts_failed s" and g: "\<forall>inp s. go_pc s = Exited \<longrightarrow> g inp s = Inr s"
    and st: "tts_step g s e = Inr s'"
  shows "tts_failed s'"
proof (cases e)
  case (OnBinary data p)
  with f st sendChunk_closed_chan[of s] show ?thesis
    by (auto simp add: ttsCallbackHandler_Binary_def tts_failed_def)
next
  case (OnFlush p)
  with f st sendChunk_closed_chan[of s] show ?thesis
    by (auto simp add: ttsCallbackHandler_Flush_def tts_failed_def)
next
  case (OnTTSError er p)
  with f st sendChunk_closed_chan[of s] show ?thesis
    by (cases er) (auto simp add: ttsCallbackHandler_Error_def tts_failed_def)
next
  case Cancel
  with f st show ?thesis by (auto simp add: tts_failed_def)
next
  case (Go inp)
  with f st g show ?thesis by (auto simp add: tts_failed_def)
next
  case Receive
  with f st show ?thesis
    by (auto simp add: tts_receive_def chan_recv_def tts_failed_def delivered_def
        split: list.splits)
qed

lemma tts_failed_run:
  assumes g: "\<forall>inp s. go_pc s = Exited \<longrightarrow> g inp s = Inr s"
  shows "tts_failed s \<Longrightarrow> tts_run g s es = Inr s' \<Longrightarrow> tts_failed s'"
proof (induction es arbitrary: s)
  case Nil
  then show ?case by simp
next
  case (Cons e es)
  from Cons.prems(2) obtain s1 where "tts_step g s e = Inr s1" "tts_run g s1 es = Inr s'"
    by (auto simp add: and_then_eq_Inr)
  with Cons.IH tts_failed_step[OF Cons.prems(1) g, of e s1] show ?case by blast
qed

lemma stream_step_Exited: "go_pc s = Exited \<Longrightarrow> stream_step txt inp s = Inr s"
  by (simp add: stream_step_def)

lemma reader_step_Exited: "go_pc s = Exited \<Longrightarrow> reader_step TrimSpace T inp s = Inr s"
  by (simp add: reader_step_def)

lemma tts_open_failure:
  assumes "new_err \<noteq> None \<or> \<not> connected"
  shows "\<exists>s e. tts_open start d new_err connected = Inr (s, Inl e) \<and> tts_failed s"
  using assms
  by (cases new_err)
    (auto simp add: tts_open_def tts_new_def make_chan_def close_chan_def tts_failed_def
      delivered_def Let_def)

lemma TranscribeStream_failure:
  assumes "new_err \<noteq> None \<or> \<not> connected"
  shows "\<exists>s e. TranscribeStream d new_err connected = Inr (s, Inl e) \<and> stt_failed s"
  using assms
  by (cases new_err)
    (auto simp add: TranscribeStream_def stt_new_def make_chan_def close_chan_def stt_failed_def
      Let_def)

text \<open>
  C4. When the client cannot be created or \<^verbatim>\<open>Connect\<close> returns false, each of
  \<^verbatim>\<open>TranscribeStream\<close>, \<^verbatim>\<open>SynthesizeStream\<close> and \<^verbatim>\<open>SynthesizeFromReader\<close>
  returns an error and no channel; the channel it made is closed and holds no item, and it
  never holds or delivers one afterwards.
\<close>

theorem connect_failure_closes_unused:
  assumes "new_err \<noteq> None \<or> \<not> connected"
  shows "(\<exists>(s :: 'm stt_session) e. TranscribeStream d new_err connected = Inr (s, Inl e)
            \<and> stt_failed s
            \<and> (\<forall>cw es s'. stt_run cw s es = Inr s' \<longrightarrow> stt_failed s'))
       \<and> (\<exists>s e. SynthesizeStream d new_err connected = Inr (s, Inl e) \<and> tts_failed s
            \<and> (\<forall>txt es s'. tts_run (stream_step txt) s es = Inr s' \<longrightarrow> tts_failed s'))
       \<and> (\<exists>s e. SynthesizeFromReader d new_err connected = Inr (s, Inl e) \<and> tts_failed s
            \<and> (\<forall>TrimSpace T es s'.
                  tts_run (reader_step TrimSpace T) s es = Inr s' \<longrightarrow> tts_failed s'))"
proof (intro conjI)
  from TranscribeStream_failure[OF assms, of d] obtain s :: "'m stt_session" and e where
    "TranscribeStream d new_err connected = Inr (s, Inl e)" "stt_failed s" by blast
  then show "\<exists>(s :: 'm stt_session) e. TranscribeStream d new_err connected = Inr (s, Inl e)
            \<and> stt_failed s \<and> (\<forall>cw es s'. stt_run cw s es = Inr s' \<longrightarrow> stt_failed s')"
    using stt_failed_run by blast
  from tts_open_failure[OF assms, of AtSpeak d] obtain s e where
    "SynthesizeStream d new_err connected = Inr (s, Inl e)" "tts_failed s"
    unfolding SynthesizeStream_def by blast
  then show "\<exists>s e. SynthesizeStream d new_err connected = Inr (s, Inl e) \<and> tts_failed s
            \<and> (\<forall>txt es s'. tts_run (stream_step txt) s es = Inr s' \<longrightarrow> tts_failed s')"
    using tts_failed_run[of "stream_step _"] stream_step_Exited by blast
  from tts_open_failure[OF assms, of AtLoop d] obtain s e where
    "SynthesizeFromReader d new_err connected = Inr (s, Inl e)" "tts_failed s"
    unfolding SynthesizeFromReader_def by blast
  then show "\<exists>s e. SynthesizeFromReader d new_err connected = Inr (s, Inl e) \<and> tts_failed s
            \<and> (\<forall>TrimSpace T es s'.
                  tts_run (reader_step TrimSpace T) s es = Inr s' \<longrightarrow> tts_failed s')"
    using tts_failed_run[of "reader_step _ _"] reader_step_Exited by blast
qed

theorem connect_failure_closes_unused_witness:
  "(\<exists>(s :: string stt_session) e. TranscribeStream False None False = Inr (s, Inl e)
       \<and> chan_closed (eventCh s) \<and> chan_buf (eventCh s) = [])
   \<and> (\<exists>s e. SynthesizeStream False None False = Inr (s, Inl e)
       \<and> chan_closed (chunkCh s) \<and> delivered s = [])
   \<and> (\<exists>s e. SynthesizeFromReader False None False = Inr (s, Inl e)
       \<and> chan_closed (chunkCh s) \<and> delivered s = [])"
proof -
  have h: "(None :: error option) \<noteq> None \<or> \<not> False" by simp
  note t = connect_failure_closes_unused[OF h, of False, where 'm = string]
  from t show ?thesis unfolding stt_failed_def tts_failed_def by blast
qed

subsection \<open>The channel is closed once\<close>

lemma steps_after_cancel_True:
  "steps_after_cancel True es = length (filter is_Go es)"
proof (induction es)
  case Nil
  then show ?case by simp
next
  case (Cons e es)
  then show ?case by (cases e) simp_all
qed

lemma steps_left_0: "steps_left p = 0 \<longleftrightarrow> p = Exited"
  by (cases p) simp_all

lemma steps_left_le: "steps_left p \<le> 4"
  by (cases p) simp_all

lemma tts_run_progress:
  assumes g: "goroutine_ok pcs g"
  shows "tts_inv s \<Longrightarrow> pcs (go_pc s) \<Longrightarrow> tts_run g s es = Inr s' \<Longrightarrow>
    4 \<le> steps_after_cancel (tts_ctx_done s) es \<Longrightarrow> go_pc s' = Exited"
proof (induction es arbitrary: s)
  case Nil
  then show ?case by simp
next
  case (Cons e es)
  show ?case
  proof (cases "tts_ctx_done s")
    case True
    from tts_run_ok[OF g Cons.prems(1,2), of "e # es"] Cons.prems(3) True
    have "steps_left (go_pc s') \<le> steps_left (go_pc s) - length (filter is_Go (e # es))"
      by auto
    moreover have "4 \<le> length (filter is_Go (e # es))"
      using Cons.prems(4) True by (simp only: steps_after_cancel_True)
    ultimately have "steps_left (go_pc s') = 0" using steps_left_le[of "go_pc s"] by linarith
    then show ?thesis by (simp add: steps_left_0)
  next
    case False
    from tts_step_ok[OF g Cons.prems(1,2), of e] obtain s1 where
      s1: "tts_step g s e = Inr s1" "tts_inv s1" "pcs (go_pc s1)"
        "tts_ctx_done s1 \<longleftrightarrow> tts_ctx_done s \<or> e = Cancel" by blast
    with Cons.prems(3) have r: "tts_run g s1 es = Inr s'" by simp
    have "steps_after_cancel (tts_ctx_done s1) es = steps_after_cancel False (e # es)"
      using s1(4) False by (cases e) simp_all
    with Cons.prems(4) False have "4 \<le> steps_after_cancel (tts_ctx_done s1) es" by simp
    from Cons.IH[OF s1(2,3) r this] show ?thesis .
  qed
qed

lemma tts_closed_once:
  assumes g: "goroutine_ok pcs g" and inv: "tts_inv s0" and pcs: "pcs (go_pc s0)"
  shows "\<exists>s. tts_run g s0 es = Inr s \<and> finishes s \<le> 1
     \<and> (chan_closed (chunkCh s) \<longleftrightarrow> go_pc s = Exited)
     \<and> (chan_closed (chunkCh s) \<longleftrightarrow> finishes s = 1)
     \<and> (4 \<le> steps_after_cancel (tts_ctx_done s0) es \<longrightarrow> chan_closed (chunkCh s))"
proof -
  from tts_run_ok[OF g inv pcs, of es] obtain s where s: "tts_run g s0 es = Inr s" "tts_inv s"
    by blast
  from s(2) have c: "chan_closed (chunkCh s) \<longleftrightarrow> go_pc s = Exited"
    and f: "finishes s = (if go_pc s = Exited then 1 else 0)"
    by (simp_all add: tts_inv_def chan_inv_def)
  have p: "4 \<le> steps_after_cancel (tts_ctx_done s0) es \<longrightarrow> chan_closed (chunkCh s)"
    using tts_run_progress[OF g inv pcs s(1)] c by simp
  from s(1) c f p show ?thesis by auto
qed

lemma tts_open_ok:
  assumes "tts_open start d None True = Inr (s0, r)"
  shows "s0 = tts_new d start"
  using assms by (simp add: tts_open_def)

lemma TranscribeStream_ok:
  assumes "TranscribeStream d None True = Inr (s0, r)"
  shows "s0 = stt_new d"
  using assms by (simp add: TranscribeStream_def)

text \<open>
  C2. After a successful \<^verbatim>\<open>TranscribeStream\<close>, whatever the caller, the context, the
  watching goroutine, the SDK and the consumer do, the event channel is never closed twice
  and the client is stopped at most once; the channel is closed exactly when a close has
  been triggered (by the caller, or by the watching goroutine after a cancellation), and
  exactly then the client has been stopped once. After a successful
  \<^verbatim>\<open>SynthesizeStream\<close> or \<^verbatim>\<open>SynthesizeFromReader\<close> no step panics, the chunk channel
  is closed exactly when the goroutine has ended, \<^verbatim>\<open>Finish\<close> having been called exactly
  once then, and it is closed once the goroutine has taken four steps after the
  cancellation.
\<close>

theorem channel_closed_exactly_once:
  "(TranscribeStream d None True = Inr (s0, Inr ()) \<longrightarrow>
      stt_run cw s0 es \<noteq> Inl CloseOfClosedChannel
      \<and> (\<forall>s. stt_run cw s0 es = Inr s \<longrightarrow>
            client_stops s \<le> 1
            \<and> (chan_closed (eventCh s) \<longleftrightarrow> close_triggered d es)
            \<and> (chan_closed (eventCh s) \<longleftrightarrow> client_stops s = 1)))
   \<and> (SynthesizeStream d None True = Inr (t0, Inr ()) \<longrightarrow>
        (\<exists>t. tts_run (stream_step txt) t0 tes = Inr t \<and> finishes t \<le> 1
           \<and> (chan_closed (chunkCh t) \<longleftrightarrow> go_pc t = Exited)
           \<and> (chan_closed (chunkCh t) \<longleftrightarrow> finishes t = 1)
           \<and> (4 \<le> steps_after_cancel d tes \<longrightarrow> chan_closed (chunkCh t))))
   \<and> (SynthesizeFromReader d None True = Inr (r0, Inr ()) \<longrightarrow>
        (\<exists>t. tts_run (reader_step TrimSpace T) r0 tes = Inr t \<and> finishes t \<le> 1
           \<and> (chan_closed (chunkCh t) \<longleftrightarrow> go_pc t = Exited)
           \<and> (chan_closed (chunkCh t) \<longleftrightarrow> finishes t = 1)
           \<and> (4 \<le> steps_after_cancel d tes \<longrightarrow> chan_closed (chunkCh t))))"
proof (intro conjI impI)
  assume a: "TranscribeStream d None True = Inr (s0, Inr ())"
  then have s0: "s0 = stt_new d" by (rule TranscribeStream_ok)
  then have inv: "stt_inv s0" by (simp add: stt_new_inv)
  show "stt_run cw s0 es \<noteq> Inl CloseOfClosedChannel"
    using stt_run_panic[OF inv, of cw es CloseOfClosedChannel] by auto
  show "\<forall>s. stt_run cw s0 es = Inr s \<longrightarrow>
            client_stops s \<le> 1
            \<and> (chan_closed (eventCh s) \<longleftrightarrow> close_triggered d es)
            \<and> (chan_closed (eventCh s) \<longleftrightarrow> client_stops s = 1)"
  proof (intro allI impI)
    fix s assume "stt_run cw s0 es = Inr s"
    from stt_run_inv[OF inv this] have i: "stt_inv s"
      and c: "w_closed s \<longleftrightarrow> w_closed s0 \<or> close_triggered (stt_ctx_done s0) es" by simp_all
    from c have "w_closed s \<longleftrightarrow> close_triggered d es" by (simp add: s0 stt_new_def)
    with i show "client_stops s \<le> 1
            \<and> (chan_closed (eventCh s) \<longleftrightarrow> close_triggered d es)
            \<and> (chan_closed (eventCh s) \<longleftrightarrow> client_stops s = 1)"
      by (simp add: stt_inv_def)
  qed
next
  assume "SynthesizeStream d None True = Inr (t0, Inr ())"
  then have t0: "t0 = tts_new d AtSpeak" unfolding SynthesizeStream_def by (rule tts_open_ok)
  have inv: "tts_inv t0" unfolding t0 by (rule tts_new_inv) (simp_all add: before_flush_def)
  have pcs: "stream_pcs (go_pc t0)" by (simp add: t0 tts_new_def stream_pcs_def)
  have d: "tts_ctx_done t0 = d" by (simp add: t0 tts_new_def)
  from tts_closed_once[OF stream_goroutine_ok inv pcs, of "txt" tes]
  show "\<exists>t. tts_run (stream_step txt) t0 tes = Inr t \<and> finishes t \<le> 1
           \<and> (chan_closed (chunkCh t) \<longleftrightarrow> go_pc t = Exited)
           \<and> (chan_closed (chunkCh t) \<longleftrightarrow> finishes t = 1)
           \<and> (4 \<le> steps_after_cancel d tes \<longrightarrow> chan_closed (chunkCh t))"
    by (simp only: d)
next
  assume "SynthesizeFromReader d None True = Inr (r0, Inr ())"
  then have t0: "r0 = tts_new d AtLoop" unfolding SynthesizeFromReader_def by (rule tts_open_ok)
  have inv: "tts_inv r0" unfolding t0 by (rule tts_new_inv) (simp_all add: before_flush_def)
  have pcs: "reader_pcs (go_pc r0)" by (simp add: t0 tts_new_def reader_pcs_def)
  have d: "tts_ctx_done r0 = d" by (simp add: t0 tts_new_def)
  from tts_closed_once[OF reader_goroutine_ok inv pcs, of TrimSpace T tes]
  show "\<exists>t. tts_run (reader_step TrimSpace T) r0 tes = Inr t \<and> finishes t \<le> 1
           \<and> (chan_closed (chunkCh t) \<longleftrightarrow> go_pc t = Exited)
           \<and> (chan_closed (chunkCh t) \<longleftrightarrow> finishes t = 1)
           \<and> (4 \<le> steps_after_cancel d tes \<longrightarrow> chan_closed (chunkCh t))"
    by (simp only: d)
qed

theorem channel_closed_exactly_once_witness:
  "(\<exists>s. stt_run (\<lambda>p. (length p, None)) (stt_new False :: string stt_session)
       [CallerClose, CtxCancel, Watcher True] = Inr s \<and> chan_closed (eventCh s) \<and> client_stops s = 1)
   \<and> (\<exists>t. tts_run (stream_step ''Hi.'') (tts_new False AtSpeak)
          [Go no_errors, Cancel, Go no_errors, Go no_errors, Go no_errors, Go no_errors] = Inr t
        \<and> chan_closed (chunkCh t) \<and> finishes t = 1)
   \<and> (\<exists>t. tts_run (reader_step (\<lambda>s. s) empty_tables) (tts_new False AtLoop)
          [Go no_errors, Cancel, Go no_errors, Go no_errors, Go no_errors, Go no_errors] = Inr t
        \<and> chan_closed (chunkCh t) \<and> finishes t = 1)"
proof -
  note t = channel_closed_exactly_once[of False "stt_new False :: string stt_session"
      "\<lambda>p. (length p, None)" "[CallerClose, CtxCancel, Watcher True]"
      "tts_new False AtSpeak" "''Hi.''"
      "[Go no_errors, Cancel, Go no_errors, Go no_errors, Go no_errors, Go no_errors]"
      "tts_new False AtLoop" "\<lambda>s. s" empty_tables]
  have a: "TranscribeStream False None True = Inr (stt_new False :: string stt_session, Inr ())"
    by (simp add: TranscribeStream_def)
  have b: "SynthesizeStream False None True = Inr (tts_new False AtSpeak, Inr ())"
    by (simp add: SynthesizeStream_def tts_open_def)
  have c: "SynthesizeFromReader False None True = Inr (tts_new False AtLoop, Inr ())"
    by (simp add: SynthesizeFromReader_def tts_open_def)
  have n: "4 \<le> steps_after_cancel False
      [Go no_errors, Cancel, Go no_errors, Go no_errors, Go no_errors, Go no_errors]" by simp
  have ct: "close_triggered False [CallerClose, CtxCancel, Watcher True :: string stt_event]"
    by simp
  have "\<exists>s. stt_run (\<lambda>p. (length p, None)) (stt_new False :: string stt_session)
       [CallerClose, CtxCancel, Watcher True] = Inr s"
    by (simp add: stt_new_def make_chan_def streamWriter_Close_def close_chan_def Let_def
        watcher_step_def)
  with t a ct have 1: "\<exists>s. stt_run (\<lambda>p. (length p, None)) (stt_new False :: string stt_session)
       [CallerClose, CtxCancel, Watcher True] = Inr s \<and> chan_closed (eventCh s) \<and> client_stops s = 1"
    by blast
  from t b n have 2: "\<exists>t. tts_run (stream_step ''Hi.'') (tts_new False AtSpeak)
          [Go no_errors, Cancel, Go no_errors, Go no_errors, Go no_errors, Go no_errors] = Inr t
        \<and> chan_closed (chunkCh t) \<and> finishes t = 1" by blast
  from t c n have 3: "\<exists>t. tts_run (reader_step (\<lambda>s. s) empty_tables) (tts_new False AtLoop)
          [Go no_errors, Cancel, Go no_errors, Go no_errors, Go no_errors, Go no_errors] = Inr t
        \<and> chan_closed (chunkCh t) \<and> finishes t = 1" by blast
  from 1 2 3 show ?thesis by blast
qed

subsection \<open>The final marker\<close>

lemma nonerror_grows: "grows_by_error s s' \<Longrightarrow> nonerror_items s' = nonerror_items s"
  by (auto simp add: grows_by_error_def nonerror_items_def error_chunk_def)

lemma tts_step_quiet:
  assumes g: "goroutine_ok pcs g" and inv: "tts_inv s" and pcs: "pcs (go_pc s)"
    and q: "\<not> is_OnFlush e" "\<not> is_OnBinary e" and st: "tts_step g s e = Inr s'"
  shows "nonerror_items s' = nonerror_items s"
proof (cases e)
  case (OnBinary data p)
  with q show ?thesis by simp
next
  case (OnFlush p)
  with q show ?thesis by simp
next
  case (OnTTSError er p)
  show ?thesis
  proof (cases er)
    case None
    with st OnTTSError show ?thesis by (simp add: ttsCallbackHandler_Error_def)
  next
    case (Some d)
    from inv have "chan_inv s" by (simp add: tts_inv_def)
    from send_error_inv[OF this, of p "Errorf_s ''deepgram TTS error: '' d"] st
    have "grows_by_error s s'" by (auto simp add: OnTTSError Some ttsCallbackHandler_Error_def)
    then show ?thesis by (rule nonerror_grows)
  qed
next
  case Cancel
  with st show ?thesis by (auto simp add: nonerror_items_def)
next
  case (Go inp)
  from g inv pcs obtain s1 where "g inp s = Inr s1" "go_ok pcs s s1"
    unfolding goroutine_ok_def by blast
  with st Go have "grows_by_error s s'" by (simp add: go_ok_def)
  then show ?thesis by (rule nonerror_grows)
next
  case Receive
  with st tts_receive_inv[OF inv] show ?thesis by (auto simp add: nonerror_items_def)
qed

lemma tts_run_quiet:
  assumes g: "goroutine_ok pcs g"
  shows "tts_inv s \<Longrightarrow> pcs (go_pc s) \<Longrightarrow> filter (\<lambda>e. is_OnFlush e \<or> is_OnBinary e) es = [] \<Longrightarrow>
    \<exists>s'. tts_run g s es = Inr s' \<and> nonerror_items s' = nonerror_items s"
proof (induction es arbitrary: s)
  case Nil
  then show ?case by simp
next
  case (Cons e es)
  from Cons.prems(3) have q: "\<not> is_OnFlush e" "\<not> is_OnBinary e"
    and r: "filter (\<lambda>e. is_OnFlush e \<or> is_OnBinary e) es = []"
    by (auto split: if_splits)
  from tts_step_ok[OF g Cons.prems(1,2), of e] obtain s1 where
    s1: "tts_step g s e = Inr s1" "tts_inv s1" "pcs (go_pc s1)" by blast
  from tts_step_quiet[OF g Cons.prems(1,2) q s1(1)] have n: "nonerror_items s1 = nonerror_items s" .
  from Cons.IH[OF s1(2,3) r] obtain s' where "tts_run g s1 es = Inr s'"
    "nonerror_items s' = nonerror_items s1" by blast
  with s1(1) n show ?case by simp
qed

lemma Flush_enqueues:
  assumes inv: "tts_inv s" and o: "\<not> chan_closed (chunkCh s)"
    and room: "length (chan_buf (chunkCh s)) < 100" and nd: "\<not> tts_ctx_done s"
  shows "\<exists>s1. ttsCallbackHandler_Flush p s = Inr s1 \<and> tts_inv s1 \<and> go_pc s1 = go_pc s
      \<and> delivered s1 = delivered s @ [final_chunk]
      \<and> nonerror_items s1 = nonerror_items s @ [final_chunk]"
proof -
  let ?s1 = "s\<lparr>chunkCh := (chunkCh s)\<lparr>chan_buf := chan_buf (chunkCh s) @ [final_chunk]\<rparr>\<rparr>"
  from inv o have h: "\<not> h_closed s" and cap: "chan_cap (chunkCh s) = 100"
    by (simp_all add: tts_inv_def chan_inv_def)
  from sendChunk_open[OF h o nd, of p final_chunk] room cap
  have 1: "ttsCallbackHandler_Flush p s = Inr ?s1" by (simp add: ttsCallbackHandler_Flush_def)
  have 2: "tts_inv ?s1" using inv room by (simp add: tts_inv_def chan_inv_def flush_inv_def)
  have 3: "delivered ?s1 = delivered s @ [final_chunk]" by (simp add: delivered_def)
  then have 4: "nonerror_items ?s1 = nonerror_items s @ [final_chunk]"
    by (simp add: nonerror_items_def final_chunk_def)
  from 1 2 3 4 show ?thesis by simp
qed

lemma final_marker_general:
  assumes g: "goroutine_ok pcs g" and inv: "tts_inv s0" and pcs: "pcs (go_pc s0)"
    and e: "delivered s0 = []"
  shows "\<exists>s. tts_run g s0 es = Inr s
     \<and> final_markers s \<le> length (filter is_OnFlush es) \<and> flushes s \<le> 1
     \<and> (chan_closed (chunkCh s) \<longrightarrow> sendChunk p s c = Inr s)
     \<and> (\<not> chan_closed (chunkCh s) \<and> length (chan_buf (chunkCh s)) = 100 \<longrightarrow>
          ttsCallbackHandler_Flush p s = Inr s)
     \<and> (\<not> chan_closed (chunkCh s) \<and> length (chan_buf (chunkCh s)) < 100 \<and> \<not> tts_ctx_done s \<longrightarrow>
          (\<exists>s1. ttsCallbackHandler_Flush p s = Inr s1
             \<and> delivered s1 = delivered s @ [final_chunk]
             \<and> (filter (\<lambda>e. is_OnFlush e \<or> is_OnBinary e) es2 = [] \<longrightarrow>
                  (\<exists>s2. tts_run g s1 es2 = Inr s2
                     \<and> nonerror_items s2 = nonerror_items s @ [final_chunk]))))"
proof -
  from tts_run_ok[OF g inv pcs, of es] obtain s where s: "tts_run g s0 es = Inr s" "tts_inv s"
    "pcs (go_pc s)" "final_markers s \<le> final_markers s0 + length (filter is_OnFlush es)"
    by blast
  from e have "final_markers s0 = 0" by (simp add: final_markers_def)
  with s(4) have fm: "final_markers s \<le> length (filter is_OnFlush es)" by simp
  from s(2) have fl: "flushes s \<le> 1" and hc: "chan_closed (chunkCh s) = h_closed s"
    and cap: "chan_cap (chunkCh s) = 100"
    by (simp_all add: tts_inv_def flush_inv_def chan_inv_def)
  have a: "chan_closed (chunkCh s) \<longrightarrow> sendChunk p s c = Inr s"
    using hc by (simp add: sendChunk_def)
  have b: "\<not> chan_closed (chunkCh s) \<and> length (chan_buf (chunkCh s)) = 100 \<longrightarrow>
          ttsCallbackHandler_Flush p s = Inr s"
    using sendChunk_full[of s p final_chunk] cap by (simp add: ttsCallbackHandler_Flush_def)
  have c: "\<not> chan_closed (chunkCh s) \<and> length (chan_buf (chunkCh s)) < 100 \<and> \<not> tts_ctx_done s \<longrightarrow>
          (\<exists>s1. ttsCallbackHandler_Flush p s = Inr s1
             \<and> delivered s1 = delivered s @ [final_chunk]
             \<and> (filter (\<lambda>e. is_OnFlush e \<or> is_OnBinary e) es2 = [] \<longrightarrow>
                  (\<exists>s2. tts_run g s1 es2 = Inr s2
                     \<and> nonerror_items s2 = nonerror_items s @ [final_chunk])))"
  proof
    assume h: "\<not> chan_closed (chunkCh s) \<and> length (chan_buf (chunkCh s)) < 100 \<and> \<not> tts_ctx_done s"
    from Flush_enqueues[OF s(2), of p] h obtain s1 where
      s1: "ttsCallbackHandler_Flush p s = Inr s1" "tts_inv s1" "go_pc s1 = go_pc s"
        "delivered s1 = delivered s @ [final_chunk]"
        "nonerror_items s1 = nonerror_items s @ [final_chunk]" by blast
    have "filter (\<lambda>e. is_OnFlush e \<or> is_OnBinary e) es2 = [] \<longrightarrow>
                  (\<exists>s2. tts_run g s1 es2 = Inr s2
                     \<and> nonerror_items s2 = nonerror_items s @ [final_chunk])"
      using tts_run_quiet[OF g s1(2), of es2] s(3) s1(3,5) by auto
    with s1(1,4) show "\<exists>s1. ttsCallbackHandler_Flush p s = Inr s1
             \<and> delivered s1 = delivered s @ [final_chunk]
             \<and> (filter (\<lambda>e. is_OnFlush e \<or> is_OnBinary e) es2 = [] \<longrightarrow>
                  (\<exists>s2. tts_run g s1 es2 = Inr s2
                     \<and> nonerror_items s2 = nonerror_items s @ [final_chunk]))" by blast
  qed
  from s(1) fm fl a b c show ?thesis by blast
qed

lemmas tts_eval =
  tts_new_def make_chan_def stream_step_def no_errors_def ttsCallbackHandler_Binary_def
  ttsCallbackHandler_Flush_def sendChunk_def select_send_def send_ready_def chan_send_def
  deferred_close_def close_chan_def Let_def audio_chunk_def final_chunk_def delivered_def
  nonerror_items_def final_markers_def

lemma run_binaries:
  assumes "\<not> h_closed s" "\<not> chan_closed (chunkCh s)" "\<not> tts_ctx_done s"
    "length (chan_buf (chunkCh s)) + n \<le> chan_cap (chunkCh s)"
  shows "tts_run g s (replicate n (OnBinary data p)) =
    Inr (s\<lparr>chunkCh := (chunkCh s)\<lparr>chan_buf := chan_buf (chunkCh s) @ replicate n (audio_chunk data)\<rparr>\<rparr>)"
  using assms
proof (induction n arbitrary: s)
  case 0
  then show ?case by simp
next
  case (Suc n)
  let ?s1 = "s\<lparr>chunkCh := (chunkCh s)\<lparr>chan_buf := chan_buf (chunkCh s) @ [audio_chunk data]\<rparr>\<rparr>"
  from Suc.prems have st: "tts_step g s (OnBinary data p) = Inr ?s1"
    by (simp add: ttsCallbackHandler_Binary_def sendChunk_open)
  have "tts_run g ?s1 (replicate n (OnBinary data p)) =
    Inr (?s1\<lparr>chunkCh := (chunkCh ?s1)\<lparr>chan_buf := chan_buf (chunkCh ?s1) @ replicate n (audio_chunk data)\<rparr>\<rparr>)"
    using Suc.prems by (intro Suc.IH) simp_all
  with st show ?case by (simp add: replicate_app_Cons_same)
qed




end
